theory Spec2Isabelle
  imports Main
begin

section \<open>The page: document tree, element objects, timers, listener\<close>

text \<open>
  The script of \<^verbatim>\<open>static/script.js\<close> is one \<^verbatim>\<open>DOMContentLoaded\<close> handler. It reads and
  mutates the document, schedules two nested timers and registers one click listener.
  The model keeps the state the script can observe or change:
  \<^item> the element hierarchy of the document, a forest of element identities (a document has
    at most one child element, its root; the forest holds that child); what is detached
    from the document is out of the forest, and its own hierarchy is not followed further;
  \<^item> the element objects by identity, attached to the document or not: a \<^verbatim>\<open>NodeList\<close>
    and a closure hold identities, and a mutation through one is seen through all;
  \<^item> the clock in milliseconds and the pending timers;
  \<^item> the click listener of the generated button with the variables its closure captured.
\<close>

datatype dtree = Node (nid: nat) (kids: "dtree list")

record element =
  localName :: string
  className :: string
  typeAttr :: string
  textContent :: string
  style :: "string \<rightharpoonup> string"

text \<open>The two timer callbacks of the script, each with the \<^verbatim>\<open>flashes\<close> list it captured.\<close>

datatype callback = FadeFlashes "nat list" | RemoveFlashes "nat list"

text \<open>The variables captured by the click listener: \<^verbatim>\<open>toggle\<close>, \<^verbatim>\<open>completed\<close>, \<^verbatim>\<open>hidden\<close>.\<close>

record closure =
  toggle :: nat
  completed :: "nat list"
  hidden :: bool

datatype js_error = TypeError | NotFoundError

record page =
  doc :: "dtree list"
  elems :: "nat \<rightharpoonup> element"
  next_id :: nat
  now :: nat
  timers :: "(nat \<times> callback) list"
  click_listener :: "closure option"

subsection \<open>Tree accessors\<close>

text \<open>Element identities in document order.\<close>

fun ids_f :: "dtree list \<Rightarrow> nat list" where
  "ids_f [] = []"
| "ids_f (Node j ks # ts) = j # ids_f ks @ ids_f ts"

text \<open>The child subtrees of element \<open>i\<close>, if \<open>i\<close> is in the forest.\<close>

fun kids_f :: "nat \<Rightarrow> dtree list \<Rightarrow> dtree list option" where
  "kids_f i [] = None"
| "kids_f i (Node j ks # ts) =
     (if j = i then Some ks
      else (case kids_f i ks of Some r \<Rightarrow> Some r | None \<Rightarrow> kids_f i ts))"

text \<open>The elements strictly inside element \<open>i\<close>, in document order.\<close>

definition descendants :: "nat \<Rightarrow> dtree list \<Rightarrow> nat list" where
  "descendants i ts = (case kids_f i ts of None \<Rightarrow> [] | Some ks \<Rightarrow> ids_f ks)"

text \<open>
  \<^verbatim>\<open>parentElement\<close>: the element whose child \<open>i\<close> is. A top-level element of the forest
  (the root element, whose parent is the document itself) has none, and the result is
  \<open>None\<close>, the model of \<^verbatim>\<open>null\<close>.
\<close>

fun parent_f :: "nat \<Rightarrow> dtree list \<Rightarrow> nat option" where
  "parent_f i [] = None"
| "parent_f i (Node j ks # ts) =
     (if i \<in> set (map nid ks) then Some j
      else (case parent_f i ks of Some p \<Rightarrow> Some p | None \<Rightarrow> parent_f i ts))"

text \<open>The sibling just before the child with identity \<open>i\<close> in a list of children.\<close>

fun previous_in :: "nat \<Rightarrow> dtree list \<Rightarrow> nat option" where
  "previous_in i (a # b # ks) =
     (if nid a = i then None
      else if nid b = i then Some (nid a)
      else previous_in i (b # ks))"
| "previous_in i ks = None"

text \<open>\<^verbatim>\<open>previousElementSibling\<close> of element \<open>i\<close>.\<close>

fun previous_f :: "nat \<Rightarrow> dtree list \<Rightarrow> nat option" where
  "previous_f i [] = None"
| "previous_f i (Node j ks # ts) =
     (if i \<in> set (map nid ks) then previous_in i ks
      else (case previous_f i ks of Some p \<Rightarrow> Some p | None \<Rightarrow> previous_f i ts))"

subsection \<open>Tree mutation\<close>

text \<open>Detach element \<open>i\<close> (with its subtree) from wherever it is attached.\<close>

fun remove_f :: "nat \<Rightarrow> dtree list \<Rightarrow> dtree list" where
  "remove_f i [] = []"
| "remove_f i (Node j ks # ts) =
     (if j = i then remove_f i ts else Node j (remove_f i ks) # remove_f i ts)"

text \<open>Put \<open>new\<close> just before the child with identity \<open>ref\<close>.\<close>

fun ins_before :: "dtree \<Rightarrow> nat \<Rightarrow> dtree list \<Rightarrow> dtree list" where
  "ins_before new ref [] = []"
| "ins_before new ref (k # ks) =
     (if nid k = ref then new # k # ks else k # ins_before new ref ks)"

text \<open>Put \<open>new\<close> among the children of element \<open>p\<close>, just before its child \<open>ref\<close>.\<close>

fun insert_f :: "nat \<Rightarrow> dtree \<Rightarrow> nat \<Rightarrow> dtree list \<Rightarrow> dtree list" where
  "insert_f p new ref [] = []"
| "insert_f p new ref (Node j ks # ts) =
     (if j = p then Node j (ins_before new ref ks) # ts
      else Node j (insert_f p new ref ks) # insert_f p new ref ts)"

subsection \<open>Class selectors\<close>

text \<open>
  The \<^verbatim>\<open>class\<close> attribute is a string; its class names are the maximal runs of characters
  other than ASCII whitespace (tab, line feed, form feed, carriage return, space).
\<close>

definition is_ascii_whitespace :: "char \<Rightarrow> bool" where
  "is_ascii_whitespace c =
     (c = CHR 0x09 \<or> c = CHR 0x0A \<or> c = CHR 0x0C \<or> c = CHR 0x0D \<or> c = CHR '' '')"

fun split_ws :: "string \<Rightarrow> string \<Rightarrow> string list" where
  "split_ws acc [] = (if acc = [] then [] else [acc])"
| "split_ws acc (c # cs) =
     (if is_ascii_whitespace c
      then (if acc = [] then split_ws [] cs else acc # split_ws [] cs)
      else split_ws (acc @ [c]) cs)"

definition classList :: "element \<Rightarrow> string list" where
  "classList e = split_ws [] (className e)"

text \<open>
  The script uses compound class selectors only: \<^verbatim>\<open>.flash\<close>, \<^verbatim>\<open>.task-list\<close> and
  \<^verbatim>\<open>.task-card.task-done\<close>. A selector is given by its class names; an element matches
  when it carries all of them (compared case-sensitively, as in a standards-mode document).
\<close>

type_synonym selector = "string list"

definition matches :: "selector \<Rightarrow> element \<Rightarrow> bool" where
  "matches sel e = list_all (\<lambda>c. c \<in> set (classList e)) sel"

definition el_matches :: "page \<Rightarrow> selector \<Rightarrow> nat \<Rightarrow> bool" where
  "el_matches s sel i = (case elems s i of None \<Rightarrow> False | Some e \<Rightarrow> matches sel e)"

subsection \<open>The DOM operations the script calls\<close>

text \<open>\<^verbatim>\<open>document.querySelectorAll(sel)\<close>: a static list, in document order.\<close>

definition querySelectorAll :: "selector \<Rightarrow> page \<Rightarrow> nat list" where
  "querySelectorAll sel s = filter (el_matches s sel) (ids_f (doc s))"

text \<open>\<^verbatim>\<open>document.querySelector(sel)\<close>: the first match in document order, or \<^verbatim>\<open>null\<close>.\<close>

definition querySelector :: "selector \<Rightarrow> page \<Rightarrow> nat option" where
  "querySelector sel s = (case querySelectorAll sel s of [] \<Rightarrow> None | i # _ \<Rightarrow> Some i)"

text \<open>\<^verbatim>\<open>el.querySelectorAll(sel)\<close>: the matches strictly inside \<open>el\<close>.\<close>

definition el_querySelectorAll :: "nat \<Rightarrow> selector \<Rightarrow> page \<Rightarrow> nat list" where
  "el_querySelectorAll el sel s = filter (el_matches s sel) (descendants el (doc s))"

definition parentElement :: "nat \<Rightarrow> page \<Rightarrow> nat option" where
  "parentElement i s = parent_f i (doc s)"

definition previousElementSibling :: "nat \<Rightarrow> page \<Rightarrow> nat option" where
  "previousElementSibling i s = previous_f i (doc s)"

text \<open>\<^verbatim>\<open>document.createElement(tag)\<close>: a new element object, attached nowhere.\<close>

definition createElement :: "string \<Rightarrow> page \<Rightarrow> nat \<times> page" where
  "createElement tag s =
     (next_id s,
      s\<lparr>elems := (elems s)(next_id s \<mapsto>
            \<lparr>localName = tag, className = [], typeAttr = [], textContent = [],
             style = Map.empty\<rparr>),
        next_id := Suc (next_id s)\<rparr>)"

definition update_element :: "nat \<Rightarrow> (element \<Rightarrow> element) \<Rightarrow> page \<Rightarrow> page" where
  "update_element i f s =
     (case elems s i of None \<Rightarrow> s | Some e \<Rightarrow> s\<lparr>elems := (elems s)(i \<mapsto> f e)\<rparr>)"

text \<open>
  \<^verbatim>\<open>el.style.prop = v\<close>: an inline declaration is set; assigning the empty string removes
  the declaration.
\<close>

definition assign :: "string \<Rightarrow> string \<Rightarrow> (string \<rightharpoonup> string) \<Rightarrow> (string \<rightharpoonup> string)" where
  "assign prop v m = (if v = [] then m(prop := None) else m(prop \<mapsto> v))"

definition set_style :: "nat \<Rightarrow> string \<Rightarrow> string \<Rightarrow> page \<Rightarrow> page" where
  "set_style i prop v = update_element i (\<lambda>e. e\<lparr>style := assign prop v (style e)\<rparr>)"

definition set_type :: "nat \<Rightarrow> string \<Rightarrow> page \<Rightarrow> page" where
  "set_type i v = update_element i (\<lambda>e. e\<lparr>typeAttr := v\<rparr>)"

definition set_textContent :: "nat \<Rightarrow> string \<Rightarrow> page \<Rightarrow> page" where
  "set_textContent i v = update_element i (\<lambda>e. e\<lparr>textContent := v\<rparr>)"

definition set_className :: "nat \<Rightarrow> string \<Rightarrow> page \<Rightarrow> page" where
  "set_className i v = update_element i (\<lambda>e. e\<lparr>className := v\<rparr>)"

text \<open>\<^verbatim>\<open>el.remove()\<close>.\<close>

definition element_remove :: "nat \<Rightarrow> page \<Rightarrow> page" where
  "element_remove i s = s\<lparr>doc := remove_f i (doc s)\<rparr>"

text \<open>
  \<^verbatim>\<open>container.insertBefore(new, ref)\<close> for a new childless element: reading the method
  from \<^verbatim>\<open>null\<close> raises a TypeError; a \<open>ref\<close> whose parent is not \<open>container\<close> raises a
  NotFoundError.
\<close>

definition insertBefore :: "nat option \<Rightarrow> nat \<Rightarrow> nat \<Rightarrow> page \<Rightarrow> js_error option \<times> page" where
  "insertBefore container new ref s =
     (case container of
        None \<Rightarrow> (Some TypeError, s)
      | Some p \<Rightarrow>
          if parent_f ref (doc s) = Some p
          then (None, s\<lparr>doc := insert_f p (Node new []) ref (doc s)\<rparr>)
          else (Some NotFoundError, s))"

text \<open>\<^verbatim>\<open>nodeList.forEach(f)\<close>.\<close>

fun forEach :: "(nat \<Rightarrow> page \<Rightarrow> page) \<Rightarrow> nat list \<Rightarrow> page \<Rightarrow> page" where
  "forEach f [] s = s"
| "forEach f (x # xs) s = forEach f xs (f x s)"

text \<open>\<^verbatim>\<open>setTimeout(cb, delay)\<close>: the callback falls due \<open>delay\<close> ms from now.\<close>

definition setTimeout :: "callback \<Rightarrow> nat \<Rightarrow> page \<Rightarrow> page" where
  "setTimeout cb delay s = s\<lparr>timers := timers s @ [(now s + delay, cb)]\<rparr>"

section \<open>The script\<close>

subsection \<open>Auto-dismiss flash messages\<close>

definition fade_flash :: "nat \<Rightarrow> page \<Rightarrow> page" where
  "fade_flash f s =
     set_style f ''transform'' ''translateY(-4px)''
       (set_style f ''opacity'' ''0''
         (set_style f ''transition'' ''opacity 0.3s ease, transform 0.3s ease'' s))"

fun run_callback :: "callback \<Rightarrow> page \<Rightarrow> page" where
  "run_callback (FadeFlashes flashes) s =
     setTimeout (RemoveFlashes flashes) 400 (forEach fade_flash flashes s)"
| "run_callback (RemoveFlashes flashes) s = forEach element_remove flashes s"

definition flash_setup :: "page \<Rightarrow> page" where
  "flash_setup s =
     (let flashes = querySelectorAll [''flash''] s
      in if length flashes \<noteq> 0 then setTimeout (FadeFlashes flashes) 4000 s else s)"

subsection \<open>Hide/show completed tasks toggle\<close>

text \<open>The click listener: it flips \<^verbatim>\<open>hidden\<close>, restyles every captured card, relabels the button.\<close>

definition on_click :: "closure \<Rightarrow> page \<Rightarrow> page" where
  "on_click c s =
     (let h = \<not> hidden c;
          s1 = forEach (\<lambda>card. set_style card ''display'' (if h then ''none'' else [])) (completed c) s;
          s2 = set_textContent (toggle c)
                 (if h then ''Show completed tasks'' else ''Hide completed tasks'') s1
      in s2\<lparr>click_listener := Some (c\<lparr>hidden := h\<rparr>)\<rparr>)"

definition toggle_setup :: "page \<Rightarrow> js_error option \<times> page" where
  "toggle_setup s =
     (case querySelector [''task-list''] s of
        None \<Rightarrow> (None, s)
      | Some taskList \<Rightarrow>
          (let cards = el_querySelectorAll taskList [''task-card'', ''task-done''] s
           in if length cards \<noteq> 0 then
                (let container = parentElement taskList s;
                     (btn, s1) = createElement ''button'' s;
                     s2 = set_type btn ''button'' s1;
                     s3 = set_textContent btn ''Hide completed tasks'' s2;
                     s4 = set_className btn ''btn-ghost'' s3;
                     s5 = set_style btn ''marginBottom'' ''12px'' s4;
                     s6 = s5\<lparr>click_listener :=
                            Some \<lparr>toggle = btn, completed = cards, hidden = False\<rparr>\<rparr>
                 in insertBefore container btn taskList s6)
              else (None, s)))"

text \<open>
  The \<^verbatim>\<open>DOMContentLoaded\<close> handler: the flash part, then the toggle part. An exception
  ends the handler where it is raised and leaves the mutations made so far in place.
\<close>

definition domContentLoaded :: "page \<Rightarrow> js_error option \<times> page" where
  "domContentLoaded s = toggle_setup (flash_setup s)"

section \<open>The event loop\<close>

text \<open>
  Time passes in steps of one millisecond. At each step the timers that have fallen due
  are taken off the queue and their callbacks run in the order they were scheduled; a
  timer scheduled by a callback waits for a later step. The clock is ideal: a callback
  runs in the millisecond it falls due.
\<close>

definition is_due :: "nat \<Rightarrow> nat \<times> callback \<Rightarrow> bool" where
  "is_due t tm = (fst tm \<le> t)"

definition run_due :: "page \<Rightarrow> page" where
  "run_due s =
     foldl (\<lambda>s' tm. run_callback (snd tm) s')
       (s\<lparr>timers := filter (\<lambda>tm. \<not> is_due (now s) tm) (timers s)\<rparr>)
       (filter (is_due (now s)) (timers s))"

fun advance :: "nat \<Rightarrow> page \<Rightarrow> page" where
  "advance 0 s = s"
| "advance (Suc n) s = advance n (run_due (s\<lparr>now := Suc (now s)\<rparr>))"

text \<open>A click on the generated button runs the listener, if one is registered.\<close>

definition click :: "page \<Rightarrow> page" where
  "click s = (case click_listener s of None \<Rightarrow> s | Some c \<Rightarrow> on_click c s)"

datatype event = Click | Elapse nat

fun step :: "event \<Rightarrow> page \<Rightarrow> page" where
  "step Click s = click s"
| "step (Elapse n) s = advance n s"

fun run :: "event list \<Rightarrow> page \<Rightarrow> page" where
  "run [] s = s"
| "run (e # es) s = run es (step e s)"

fun elapsed :: "event list \<Rightarrow> nat" where
  "elapsed [] = 0"
| "elapsed (Click # es) = elapsed es"
| "elapsed (Elapse n # es) = n + elapsed es"

section \<open>Notions of the specification\<close>

text \<open>
  The element sets the specification speaks of, read off the page at load time. The
  task-list container is the first element in document order that carries the class
  \<^verbatim>\<open>task-list\<close>; a completed card is an element strictly inside it that carries both
  \<^verbatim>\<open>task-card\<close> and \<^verbatim>\<open>task-done\<close>.
\<close>

definition is_class :: "string \<Rightarrow> page \<Rightarrow> nat \<Rightarrow> bool" where
  "is_class c s i = (case elems s i of None \<Rightarrow> False | Some e \<Rightarrow> c \<in> set (classList e))"

definition flash_elements :: "page \<Rightarrow> nat list" where
  "flash_elements s = filter (is_class ''flash'' s) (ids_f (doc s))"

definition task_list :: "page \<Rightarrow> nat option" where
  "task_list s = find (is_class ''task-list'' s) (ids_f (doc s))"

definition completed_cards :: "page \<Rightarrow> nat list" where
  "completed_cards s =
     (case task_list s of
        None \<Rightarrow> []
      | Some l \<Rightarrow>
          filter (\<lambda>i. is_class ''task-card'' s i \<and> is_class ''task-done'' s i)
            (descendants l (doc s)))"

text \<open>
  A well-formed page: every element occurs once in the document, every element of the
  document has its object, and the identities not yet handed out lie above all objects.
\<close>

definition wf_page :: "page \<Rightarrow> bool" where
  "wf_page s =
     (distinct (ids_f (doc s)) \<and> set (ids_f (doc s)) \<subseteq> dom (elems s) \<and>
      (\<forall>i \<in> dom (elems s). i < next_id s))"

text \<open>The page as the handler finds it: the script has scheduled and registered nothing yet.\<close>

definition at_load :: "page \<Rightarrow> bool" where
  "at_load s = (wf_page s \<and> timers s = [] \<and> click_listener s = None)"

text \<open>What is seen of the toggle: the button's label and a card's inline \<^verbatim>\<open>display\<close>.\<close>

definition label :: "page \<Rightarrow> string option" where
  "label s =
     (case click_listener s of
        None \<Rightarrow> None
      | Some c \<Rightarrow> map_option textContent (elems s (toggle c)))"

definition display_of :: "page \<Rightarrow> nat \<Rightarrow> string option option" where
  "display_of s i = map_option (\<lambda>e. style e ''display'') (elems s i)"

text \<open>The listener is registered, for a non-empty list of existing cards and an existing button.\<close>

definition toggle_ready :: "page \<Rightarrow> bool" where
  "toggle_ready s =
     (case click_listener s of
        None \<Rightarrow> False
      | Some c \<Rightarrow>
          completed c \<noteq> [] \<and> set (completed c) \<subseteq> dom (elems s) \<and> toggle c \<in> dom (elems s))"

text \<open>
  The net effect of lines 28 to 43 of the script on a page, before the insertion: the new
  button object and the registered listener (lemma \<open>toggle_setup_cards\<close> below).
\<close>

definition button_element :: element where
  "button_element =
     \<lparr>localName = ''button'', className = ''btn-ghost'', typeAttr = ''button'',
      textContent = ''Hide completed tasks'', style = [''marginBottom'' \<mapsto> ''12px'']\<rparr>"

definition with_button :: "page \<Rightarrow> page" where
  "with_button s =
     s\<lparr>next_id := Suc (next_id s),
       elems := (elems s)(next_id s \<mapsto> button_element),
       click_listener :=
         Some \<lparr>toggle = next_id s, completed = completed_cards s, hidden = False\<rparr>\<rparr>"

text \<open>
  The invariant of the toggle: the label reads "Show completed tasks" exactly when
  \<^verbatim>\<open>hidden\<close> is set, which is exactly when every captured card has the inline display
  \<^verbatim>\<open>none\<close>; it reads "Hide completed tasks" exactly when \<^verbatim>\<open>hidden\<close> is not set and no captured
  card has an inline display.
\<close>

definition toggle_inv :: "page \<Rightarrow> bool" where
  "toggle_inv s =
     (case click_listener s of
        None \<Rightarrow> False
      | Some c \<Rightarrow>
          completed c \<noteq> [] \<and>
          ((label s = Some ''Show completed tasks'') = hidden c) \<and>
          (hidden c = list_all (\<lambda>card. display_of s card = Some (Some ''none'')) (completed c)) \<and>
          ((label s = Some ''Hide completed tasks'') =
             (\<not> hidden c \<and> list_all (\<lambda>card. display_of s card = Some None) (completed c))))"

text \<open>
  The display a card ends up with: its inline declaration if it has one, else the display
  the style sheets give it. The style sheets are not part of the script; their value is a
  parameter.
\<close>

definition effective_display :: "string \<Rightarrow> page \<Rightarrow> nat \<Rightarrow> string" where
  "effective_display natural s i =
     (case display_of s i of Some (Some v) \<Rightarrow> v | _ \<Rightarrow> natural)"

text \<open>The number of clicks in a trace of events.\<close>

fun clicks :: "event list \<Rightarrow> nat" where
  "clicks [] = 0"
| "clicks (Click # es) = Suc (clicks es)"
| "clicks (Elapse n # es) = clicks es"

text \<open>
  What is seen of the dismissal: a flash element has the three inline declarations of the
  fade; an element is attached when it occurs in the document.
\<close>

definition faded :: "page \<Rightarrow> nat \<Rightarrow> bool" where
  "faded s f =
     (case elems s f of
        None \<Rightarrow> False
      | Some e \<Rightarrow>
          style e ''opacity'' = Some ''0'' \<and>
          style e ''transform'' = Some ''translateY(-4px)'' \<and>
          style e ''transition'' = Some ''opacity 0.3s ease, transform 0.3s ease'')"

definition attached :: "page \<Rightarrow> nat \<Rightarrow> bool" where
  "attached s f = (f \<in> set (ids_f (doc s)))"

text \<open>
  The three stages of the dismiss sequence, for a page loaded at time \<open>t0\<close> with the flash
  elements \<open>fl\<close> and the document \<open>d\<close>: before 4000 ms the fade is pending; from 4000 ms to
  4400 ms the elements are faded and the removal is pending; from 4400 ms on the elements
  are faded and detached and no timer is left.
\<close>

definition dismiss_state :: "nat \<Rightarrow> nat list \<Rightarrow> dtree list \<Rightarrow> page \<Rightarrow> bool" where
  "dismiss_state t0 fl d s =
     (if now s < t0 + 4000 then
        timers s = [(t0 + 4000, FadeFlashes fl)] \<and> doc s = d \<and> set fl \<subseteq> dom (elems s)
      else if now s < t0 + 4400 then
        timers s = [(t0 + 4400, RemoveFlashes fl)] \<and> doc s = d \<and> list_all (faded s) fl
      else
        timers s = [] \<and> list_all (faded s) fl \<and> list_all (\<lambda>f. \<not> attached s f) fl)"

text \<open>
  What the handler put into the document: the elements of the document of \<open>s'\<close> that the
  document of \<open>s\<close> did not have, in document order; and the elements of a document that are
  buttons.
\<close>

definition inserted :: "page \<Rightarrow> page \<Rightarrow> nat list" where
  "inserted s s' = filter (\<lambda>i. i \<notin> set (ids_f (doc s))) (ids_f (doc s'))"

definition buttons_in_document :: "page \<Rightarrow> nat list" where
  "buttons_in_document s =
     filter (\<lambda>i. map_option localName (elems s i) = Some ''button'') (ids_f (doc s))"

section \<open>Example pages\<close>

definition el :: "string \<Rightarrow> string \<Rightarrow> element" where
  "el tag cls =
     \<lparr>localName = tag, className = cls, typeAttr = [], textContent = [], style = Map.empty\<rparr>"

text \<open>
  A flash banner, and a task list with one open and one completed card:
  \<^verbatim>\<open><html><body><div class="flash flash-success"></div><ul class="task-list">
  <li class="task-card"></li><li class="task-card task-done"></li></ul></body></html>\<close>
\<close>

definition page_tasks :: page where
  "page_tasks =
     \<lparr>doc = [Node 0 [Node 1 [Node 2 [], Node 3 [Node 4 [], Node 5 []]]]],
      elems = map_of
        [(0, el ''html'' []), (1, el ''body'' []), (2, el ''div'' ''flash flash-success''),
         (3, el ''ul'' ''task-list''), (4, el ''li'' ''task-card''),
         (5, el ''li'' ''task-card task-done'')],
      next_id = 6, now = 0, timers = [], click_listener = None\<rparr>"

text \<open>
  No flash banner, and a task list with no completed card:
  \<^verbatim>\<open><html><body><ul class="task-list"><li class="task-card"></li></ul></body></html>\<close>
\<close>

definition page_open_tasks :: page where
  "page_open_tasks =
     \<lparr>doc = [Node 0 [Node 1 [Node 2 [Node 3 []]]]],
      elems = map_of
        [(0, el ''html'' []), (1, el ''body'' []), (2, el ''ul'' ''task-list''),
         (3, el ''li'' ''task-card'')],
      next_id = 4, now = 0, timers = [], click_listener = None\<rparr>"

text \<open>
  Neither a flash banner nor a task list:
  \<^verbatim>\<open><html><body><p class="note"></p></body></html>\<close>
\<close>

definition page_plain :: page where
  "page_plain =
     \<lparr>doc = [Node 0 [Node 1 [Node 2 []]]],
      elems = map_of [(0, el ''html'' []), (1, el ''body'' []), (2, el ''p'' ''note'')],
      next_id = 3, now = 0, timers = [], click_listener = None\<rparr>"

text \<open>
  The root element itself is the task-list container:
  \<^verbatim>\<open><html class="task-list"><body><li class="task-card task-done"></li></body></html>\<close>
\<close>

definition page_root_list :: page where
  "page_root_list =
     \<lparr>doc = [Node 0 [Node 1 [Node 2 []]]],
      elems = map_of
        [(0, el ''html'' ''task-list''), (1, el ''body'' []),
         (2, el ''li'' ''task-card task-done'')],
      next_id = 3, now = 0, timers = [], click_listener = None\<rparr>"

text \<open>
  A completed card rendered with an inline display of its own:
  \<^verbatim>\<open><html><body><ul class="task-list">
  <li class="task-card task-done" style="display: flex"></li></ul></body></html>\<close>
\<close>

definition page_preset_display :: page where
  "page_preset_display =
     \<lparr>doc = [Node 0 [Node 1 [Node 2 [Node 3 []]]]],
      elems = map_of
        [(0, el ''html'' []), (1, el ''body'' []), (2, el ''ul'' ''task-list''),
         (3, (el ''li'' ''task-card task-done'')\<lparr>style := [''display'' \<mapsto> ''flex'']\<rparr>)],
      next_id = 4, now = 0, timers = [], click_listener = None\<rparr>"

section \<open>Basic facts\<close>

lemma update_element_fields [simp]:
  "doc (update_element i f s) = doc s"
  "next_id (update_element i f s) = next_id s"
  "now (update_element i f s) = now s"
  "timers (update_element i f s) = timers s"
  "click_listener (update_element i f s) = click_listener s"
  by (simp_all add: update_element_def split: option.splits)

lemma elems_update_element:
  "elems (update_element i f s) j = (if j = i then map_option f (elems s i) else elems s j)"
  by (simp add: update_element_def split: option.splits)

lemma dom_update_element [simp]: "dom (elems (update_element i f s)) = dom (elems s)"
  by (auto simp: elems_update_element dom_def split: if_splits)

lemma set_style_fields [simp]:
  "doc (set_style i p v s) = doc s"
  "next_id (set_style i p v s) = next_id s"
  "now (set_style i p v s) = now s"
  "timers (set_style i p v s) = timers s"
  "click_listener (set_style i p v s) = click_listener s"
  "dom (elems (set_style i p v s)) = dom (elems s)"
  by (simp_all add: set_style_def)

lemma elems_set_style:
  "elems (set_style i p v s) j =
     (if j = i then map_option (\<lambda>e. e\<lparr>style := assign p v (style e)\<rparr>) (elems s i) else elems s j)"
  by (simp add: set_style_def elems_update_element)

lemma set_textContent_fields [simp]:
  "doc (set_textContent i v s) = doc s"
  "next_id (set_textContent i v s) = next_id s"
  "now (set_textContent i v s) = now s"
  "timers (set_textContent i v s) = timers s"
  "click_listener (set_textContent i v s) = click_listener s"
  "dom (elems (set_textContent i v s)) = dom (elems s)"
  by (simp_all add: set_textContent_def)

lemma elems_set_textContent:
  "elems (set_textContent i v s) j =
     (if j = i then map_option (\<lambda>e. e\<lparr>textContent := v\<rparr>) (elems s i) else elems s j)"
  by (simp add: set_textContent_def elems_update_element)

lemma assign_assign [simp]: "assign p v (assign p w m) = assign p v m"
  by (simp add: assign_def)

lemma assign_apply: "assign p v m q = (if q = p then (if v = [] then None else Some v) else m q)"
  by (simp add: assign_def)

text \<open>Restyling a list of elements: each listed element gets the declaration, no other changes.\<close>

lemma forEach_set_style_fields [simp]:
  "doc (forEach (\<lambda>c. set_style c p v) xs s) = doc s"
  "next_id (forEach (\<lambda>c. set_style c p v) xs s) = next_id s"
  "now (forEach (\<lambda>c. set_style c p v) xs s) = now s"
  "timers (forEach (\<lambda>c. set_style c p v) xs s) = timers s"
  "click_listener (forEach (\<lambda>c. set_style c p v) xs s) = click_listener s"
  "dom (elems (forEach (\<lambda>c. set_style c p v) xs s)) = dom (elems s)"
  by (induction xs arbitrary: s; simp)+

lemma elems_forEach_set_style:
  "elems (forEach (\<lambda>c. set_style c p v) xs s) j =
     (if j \<in> set xs then map_option (\<lambda>e. e\<lparr>style := assign p v (style e)\<rparr>) (elems s j)
      else elems s j)"
  by (induction xs arbitrary: s) (auto simp: elems_set_style option.map_comp comp_def)

lemma on_click_fields [simp]:
  "doc (on_click c s) = doc s"
  "next_id (on_click c s) = next_id s"
  "now (on_click c s) = now s"
  "timers (on_click c s) = timers s"
  "click_listener (on_click c s) = Some (c\<lparr>hidden := \<not> hidden c\<rparr>)"
  "dom (elems (on_click c s)) = dom (elems s)"
  by (simp_all add: on_click_def Let_def)

lemma elems_on_click:
  "elems (on_click c s) j =
     map_option
       (\<lambda>e. if j = toggle c
            then e\<lparr>textContent :=
                   (if hidden c then ''Hide completed tasks'' else ''Show completed tasks'')\<rparr>
            else e)
       (map_option
          (\<lambda>e. if j \<in> set (completed c)
               then e\<lparr>style := assign ''display'' (if hidden c then [] else ''none'') (style e)\<rparr>
               else e)
          (elems s j))"
  by (cases "elems s j")
     (auto simp: on_click_def Let_def elems_set_textContent elems_forEach_set_style)

lemma click_fields [simp]:
  "doc (click s) = doc s"
  "next_id (click s) = next_id s"
  "now (click s) = now s"
  "timers (click s) = timers s"
  "dom (elems (click s)) = dom (elems s)"
  by (simp_all add: click_def split: option.splits)

lemma click_listener_click:
  "click_listener (click s) = map_option (\<lambda>c. c\<lparr>hidden := \<not> hidden c\<rparr>) (click_listener s)"
  by (simp add: click_def split: option.splits)

lemma elems_click_other:
  assumes "click_listener s = Some c" "j \<notin> set (completed c)" "j \<noteq> toggle c"
  shows "elems (click s) j = elems s j"
  using assms by (cases "elems s j") (simp_all add: click_def elems_on_click)

lemma display_of_click:
  assumes "click_listener s = Some c" "j \<in> set (completed c)" "j \<in> dom (elems s)"
  shows "display_of (click s) j = Some (if hidden c then None else Some ''none'')"
proof -
  from assms(3) obtain e where "elems s j = Some e" by auto
  with assms(1,2) show ?thesis
    by (simp add: click_def display_of_def elems_on_click assign_apply)
qed

lemma label_click:
  assumes "click_listener s = Some c" "toggle c \<in> dom (elems s)"
  shows "label (click s) = Some (if hidden c then ''Hide completed tasks'' else ''Show completed tasks'')"
proof -
  from assms(2) obtain e where "elems s (toggle c) = Some e" by auto
  with assms(1) show ?thesis
    by (simp add: click_def label_def elems_on_click)
qed

lemma toggle_ready_click: "toggle_ready s \<Longrightarrow> toggle_ready (click s)"
  by (auto simp: toggle_ready_def click_listener_click split: option.splits)

subsection \<open>Selectors and the specification's element sets\<close>

lemma el_matches_single: "el_matches s [c] = is_class c s"
  by (rule ext) (simp add: el_matches_def is_class_def matches_def split: option.splits)

lemma el_matches_pair: "el_matches s [c, d] = (\<lambda>i. is_class c s i \<and> is_class d s i)"
  by (rule ext) (simp add: el_matches_def is_class_def matches_def split: option.splits)

lemma first_filter_find: "(case filter P xs of [] \<Rightarrow> None | x # _ \<Rightarrow> Some x) = find P xs"
  by (induction xs) simp_all

lemma querySelectorAll_flash: "querySelectorAll [''flash''] s = flash_elements s"
  by (simp add: querySelectorAll_def flash_elements_def el_matches_single)

lemma querySelector_task_list: "querySelector [''task-list''] s = task_list s"
  by (simp add: querySelector_def querySelectorAll_def task_list_def el_matches_single
      first_filter_find)

lemma el_querySelectorAll_done:
  "task_list s = Some l \<Longrightarrow>
   el_querySelectorAll l [''task-card'', ''task-done''] s = completed_cards s"
  by (simp add: el_querySelectorAll_def completed_cards_def el_matches_pair)

lemma is_class_cong: "elems s' = elems s \<Longrightarrow> is_class c s' = is_class c s"
  by (rule ext) (simp add: is_class_def)

lemma task_list_cong: "doc s' = doc s \<Longrightarrow> elems s' = elems s \<Longrightarrow> task_list s' = task_list s"
  using is_class_cong [of s' s] by (simp add: task_list_def)

lemma completed_cards_cong:
  "doc s' = doc s \<Longrightarrow> elems s' = elems s \<Longrightarrow> completed_cards s' = completed_cards s"
  using is_class_cong [of s' s] task_list_cong [of s' s]
  by (simp add: completed_cards_def split: option.splits)

lemma flash_elements_cong:
  "doc s' = doc s \<Longrightarrow> elems s' = elems s \<Longrightarrow> flash_elements s' = flash_elements s"
  using is_class_cong [of s' s] by (simp add: flash_elements_def)

subsection \<open>The load handler\<close>

lemma flash_setup_fields [simp]:
  "doc (flash_setup s) = doc s"
  "elems (flash_setup s) = elems s"
  "next_id (flash_setup s) = next_id s"
  "now (flash_setup s) = now s"
  "click_listener (flash_setup s) = click_listener s"
  by (simp_all add: flash_setup_def setTimeout_def Let_def)

lemma timers_flash_setup:
  "timers (flash_setup s) =
     timers s @ (if flash_elements s = [] then []
                 else [(now s + 4000, FadeFlashes (flash_elements s))])"
  by (simp add: flash_setup_def setTimeout_def Let_def querySelectorAll_flash)

lemma flash_setup_none: "flash_elements s = [] \<Longrightarrow> flash_setup s = s"
  by (simp add: flash_setup_def Let_def querySelectorAll_flash)

lemma toggle_setup_no_cards: "completed_cards s = [] \<Longrightarrow> toggle_setup s = (None, s)"
  by (cases "task_list s")
     (simp_all add: toggle_setup_def querySelector_task_list el_querySelectorAll_done Let_def)

lemma toggle_setup_cards:
  assumes "task_list s = Some l" "completed_cards s \<noteq> []"
  shows "toggle_setup s = insertBefore (parentElement l s) (next_id s) l (with_button s)"
  using assms
  by (simp add: toggle_setup_def querySelector_task_list el_querySelectorAll_done Let_def
      createElement_def set_type_def set_textContent_def set_className_def set_style_def
      update_element_def assign_def with_button_def button_element_def)

lemma completed_cards_task_list: "completed_cards s \<noteq> [] \<Longrightarrow> \<exists>l. task_list s = Some l"
  by (cases "task_list s") (simp_all add: completed_cards_def)

subsection \<open>Inserting a new leaf before a child\<close>

lemma parent_f_in_ids: "parent_f i ts = Some p \<Longrightarrow> p \<in> set (ids_f ts)"
  by (induction ts rule: ids_f.induct) (auto split: if_splits option.splits)

lemma child_in_ids: "x \<in> set ts \<Longrightarrow> nid x \<in> set (ids_f ts)"
  by (induction ts rule: ids_f.induct) auto

lemma parent_f_child_in_ids: "parent_f i ts = Some p \<Longrightarrow> i \<in> set (ids_f ts)"
  by (induction ts rule: ids_f.induct) (auto split: if_splits option.splits dest: child_in_ids)

lemma previous_f_parent: "previous_f i ts = Some q \<Longrightarrow> parent_f i ts \<noteq> None"
  by (induction ts rule: ids_f.induct) (auto split: if_splits option.splits)

lemma insert_f_absent: "p \<notin> set (ids_f ts) \<Longrightarrow> insert_f p new ref ts = ts"
  by (induction ts rule: ids_f.induct) auto

lemma nid_insert_f [simp]: "map nid (insert_f p new ref ts) = map nid ts"
  by (induction ts rule: ids_f.induct) auto

lemma nid_ins_before:
  "set (map nid (ins_before new ref ks)) =
     (if ref \<in> set (map nid ks) then insert (nid new) (set (map nid ks)) else set (map nid ks))"
  by (induction ks) auto

lemma ids_f_Cons: "ids_f (k # ks) = nid k # ids_f (kids k) @ ids_f ks"
  by (cases k) simp

lemma ids_ins_before:
  "ref \<in> set (map nid ks) \<Longrightarrow>
   \<exists>xs ys. ids_f ks = xs @ ref # ys \<and> ids_f (ins_before (Node b []) ref ks) = xs @ b # ref # ys"
proof (induction ks)
  case Nil
  then show ?case by simp
next
  case (Cons k ks)
  show ?case
  proof (cases "nid k = ref")
    case True
    then have "ids_f (k # ks) = [] @ ref # (ids_f (kids k) @ ids_f ks)"
      and "ids_f (ins_before (Node b []) ref (k # ks)) = [] @ b # ref # (ids_f (kids k) @ ids_f ks)"
      by (simp_all add: ids_f_Cons)
    then show ?thesis by blast
  next
    case False
    with Cons obtain xs ys where
      "ids_f ks = xs @ ref # ys" "ids_f (ins_before (Node b []) ref ks) = xs @ b # ref # ys"
      by auto
    with False have "ids_f (k # ks) = (nid k # ids_f (kids k) @ xs) @ ref # ys"
      and "ids_f (ins_before (Node b []) ref (k # ks)) = (nid k # ids_f (kids k) @ xs) @ b # ref # ys"
      by (simp_all add: ids_f_Cons)
    then show ?thesis by blast
  qed
qed

lemma ids_insert_f:
  "distinct (ids_f ts) \<Longrightarrow> parent_f ref ts = Some p \<Longrightarrow>
   \<exists>xs ys. ids_f ts = xs @ ref # ys \<and> ids_f (insert_f p (Node b []) ref ts) = xs @ b # ref # ys"
proof (induction ts rule: ids_f.induct)
  case 1
  then show ?case by simp
next
  case (2 j ks ts)
  from "2.prems"(1) have dks: "distinct (ids_f ks)" and dts: "distinct (ids_f ts)"
    and jks: "j \<notin> set (ids_f ks)" and jts: "j \<notin> set (ids_f ts)"
    and disj: "set (ids_f ks) \<inter> set (ids_f ts) = {}"
    by auto
  consider (child) "ref \<in> set (map nid ks)"
    | (inside) "ref \<notin> set (map nid ks)" "parent_f ref ks = Some p"
    | (later) "ref \<notin> set (map nid ks)" "parent_f ref ks = None" "parent_f ref ts = Some p"
    using "2.prems"(2) by (auto split: if_splits option.splits)
  then show ?case
  proof cases
    case child
    with "2.prems"(2) have "j = p" by simp
    from ids_ins_before [OF child, of b] obtain xs ys where
      "ids_f ks = xs @ ref # ys" "ids_f (ins_before (Node b []) ref ks) = xs @ b # ref # ys"
      by blast
    with \<open>j = p\<close> have "ids_f (Node j ks # ts) = (j # xs) @ ref # (ys @ ids_f ts)"
      and "ids_f (insert_f p (Node b []) ref (Node j ks # ts)) = (j # xs) @ b # ref # (ys @ ids_f ts)"
      by simp_all
    then show ?thesis by blast
  next
    case inside
    then have pks: "p \<in> set (ids_f ks)" by (simp add: parent_f_in_ids)
    with jks disj have "j \<noteq> p" "p \<notin> set (ids_f ts)" by auto
    then have same: "insert_f p (Node b []) ref ts = ts" by (simp add: insert_f_absent)
    from "2.IH"(1) [OF dks inside(2)] obtain xs ys where
      "ids_f ks = xs @ ref # ys" "ids_f (insert_f p (Node b []) ref ks) = xs @ b # ref # ys"
      by blast
    with \<open>j \<noteq> p\<close> same have "ids_f (Node j ks # ts) = (j # xs) @ ref # (ys @ ids_f ts)"
      and "ids_f (insert_f p (Node b []) ref (Node j ks # ts)) = (j # xs) @ b # ref # (ys @ ids_f ts)"
      by simp_all
    then show ?thesis by blast
  next
    case later
    then have pts: "p \<in> set (ids_f ts)" by (simp add: parent_f_in_ids)
    with jts disj have "j \<noteq> p" "p \<notin> set (ids_f ks)" by auto
    then have same: "insert_f p (Node b []) ref ks = ks" by (simp add: insert_f_absent)
    from "2.IH"(2) [OF dts later(3)] obtain xs ys where
      "ids_f ts = xs @ ref # ys" "ids_f (insert_f p (Node b []) ref ts) = xs @ b # ref # ys"
      by blast
    with \<open>j \<noteq> p\<close> same have "ids_f (Node j ks # ts) = (j # ids_f ks @ xs) @ ref # ys"
      and "ids_f (insert_f p (Node b []) ref (Node j ks # ts)) = (j # ids_f ks @ xs) @ b # ref # ys"
      by simp_all
    then show ?thesis by blast
  qed
qed

lemma parent_f_ins_before_other:
  "i \<noteq> b \<Longrightarrow> parent_f i (ins_before (Node b []) ref ks) = parent_f i ks"
  by (induction ks rule: ids_f.induct) (auto split: option.splits)

lemma parent_f_insert_f_other:
  "i \<noteq> b \<Longrightarrow> parent_f i (insert_f p (Node b []) ref ts) = parent_f i ts"
  by (induction ts rule: ids_f.induct)
     (auto simp: nid_ins_before parent_f_ins_before_other simp del: set_map split: option.splits)

lemma parent_f_absent: "i \<notin> set (ids_f ts) \<Longrightarrow> parent_f i ts = None"
  using parent_f_child_in_ids [of i ts] by (cases "parent_f i ts") auto

lemma parent_f_new_leaf:
  "distinct (ids_f ts) \<Longrightarrow> parent_f ref ts = Some p \<Longrightarrow> b \<notin> set (ids_f ts) \<Longrightarrow>
   parent_f b (insert_f p (Node b []) ref ts) = Some p"
proof (induction ts rule: ids_f.induct)
  case 1
  then show ?case by simp
next
  case (2 j ks ts)
  from "2.prems"(1) have dks: "distinct (ids_f ks)" and dts: "distinct (ids_f ts)"
    and jks: "j \<notin> set (ids_f ks)" and jts: "j \<notin> set (ids_f ts)"
    and disj: "set (ids_f ks) \<inter> set (ids_f ts) = {}"
    by auto
  from "2.prems"(3) have bks: "b \<notin> set (ids_f ks)" and bts: "b \<notin> set (ids_f ts)" by auto
  from bks have bkids: "b \<notin> set (map nid ks)" using child_in_ids [of _ ks] by auto
  consider (child) "ref \<in> set (map nid ks)"
    | (inside) "ref \<notin> set (map nid ks)" "parent_f ref ks = Some p"
    | (later) "ref \<notin> set (map nid ks)" "parent_f ref ks = None" "parent_f ref ts = Some p"
    using "2.prems"(2) by (auto split: if_splits option.splits)
  then show ?case
  proof cases
    case child
    with "2.prems"(2) have "j = p" by simp
    moreover from child have "b \<in> set (map nid (ins_before (Node b []) ref ks))"
      by (simp add: nid_ins_before del: set_map)
    ultimately show ?thesis by simp
  next
    case inside
    then have "p \<in> set (ids_f ks)" by (simp add: parent_f_in_ids)
    with jks have "j \<noteq> p" by auto
    moreover have "parent_f b (insert_f p (Node b []) ref ks) = Some p"
      using "2.IH"(1) [OF dks inside(2) bks] .
    ultimately show ?thesis using bkids by simp
  next
    case later
    then have "p \<in> set (ids_f ts)" by (simp add: parent_f_in_ids)
    with jts disj have "j \<noteq> p" "p \<notin> set (ids_f ks)" by auto
    moreover from this have "insert_f p (Node b []) ref ks = ks" by (simp add: insert_f_absent)
    moreover have "parent_f b ks = None" using bks by (rule parent_f_absent)
    moreover have "parent_f b (insert_f p (Node b []) ref ts) = Some p"
      using "2.IH"(2) [OF dts later(3) bts] .
    ultimately show ?thesis using bkids by simp
  qed
qed

lemma previous_in_ins_before:
  "ref \<in> set (map nid ks) \<Longrightarrow> b \<noteq> ref \<Longrightarrow>
   previous_in ref (ins_before (Node b []) ref ks) = Some b"
proof (induction ks)
  case Nil
  then show ?case by simp
next
  case (Cons k ks)
  show ?case
  proof (cases "nid k = ref")
    case True
    with Cons.prems show ?thesis by simp
  next
    case False
    with Cons.prems have in_ks: "ref \<in> set (map nid ks)" by auto
    then obtain a as where ks: "ks = a # as" by (cases ks) auto
    from Cons.IH [OF in_ks Cons.prems(2)] False Cons.prems(2) show ?thesis
      unfolding ks by (cases "nid a = ref") simp_all
  qed
qed

lemma previous_f_no_parent: "parent_f i ts = None \<Longrightarrow> previous_f i ts = None"
  using previous_f_parent [of i ts] by (cases "previous_f i ts") auto

lemma previous_f_new_leaf:
  "distinct (ids_f ts) \<Longrightarrow> parent_f ref ts = Some p \<Longrightarrow> b \<noteq> ref \<Longrightarrow>
   previous_f ref (insert_f p (Node b []) ref ts) = Some b"
proof (induction ts rule: ids_f.induct)
  case 1
  then show ?case by simp
next
  case (2 j ks ts)
  from "2.prems"(1) have dks: "distinct (ids_f ks)" and dts: "distinct (ids_f ts)"
    and jks: "j \<notin> set (ids_f ks)" and jts: "j \<notin> set (ids_f ts)"
    and disj: "set (ids_f ks) \<inter> set (ids_f ts) = {}"
    by auto
  consider (child) "ref \<in> set (map nid ks)"
    | (inside) "ref \<notin> set (map nid ks)" "parent_f ref ks = Some p"
    | (later) "ref \<notin> set (map nid ks)" "parent_f ref ks = None" "parent_f ref ts = Some p"
    using "2.prems"(2) by (auto split: if_splits option.splits)
  then show ?case
  proof cases
    case child
    with "2.prems"(2) have "j = p" by simp
    moreover from child have "ref \<in> set (map nid (ins_before (Node b []) ref ks))"
      by (simp add: nid_ins_before del: set_map)
    ultimately show ?thesis
      using previous_in_ins_before [OF child "2.prems"(3)] by simp
  next
    case inside
    then have "p \<in> set (ids_f ks)" by (simp add: parent_f_in_ids)
    with jks have "j \<noteq> p" by auto
    moreover have "previous_f ref (insert_f p (Node b []) ref ks) = Some b"
      using "2.IH"(1) [OF dks inside(2) "2.prems"(3)] .
    ultimately show ?thesis using inside(1) by simp
  next
    case later
    then have "p \<in> set (ids_f ts)" by (simp add: parent_f_in_ids)
    with jts disj have "j \<noteq> p" "p \<notin> set (ids_f ks)" by auto
    moreover from this have "insert_f p (Node b []) ref ks = ks" by (simp add: insert_f_absent)
    moreover have "previous_f ref ks = None" using later(2) by (rule previous_f_no_parent)
    moreover have "previous_f ref (insert_f p (Node b []) ref ts) = Some b"
      using "2.IH"(2) [OF dts later(3) "2.prems"(3)] .
    ultimately show ?thesis using later(1) by simp
  qed
qed

lemma with_button_fields [simp]:
  "doc (with_button s) = doc s"
  "now (with_button s) = now s"
  "timers (with_button s) = timers s"
  "next_id (with_button s) = Suc (next_id s)"
  "elems (with_button s) = (elems s)(next_id s \<mapsto> button_element)"
  "click_listener (with_button s) =
     Some \<lparr>toggle = next_id s, completed = completed_cards s, hidden = False\<rparr>"
  by (simp_all add: with_button_def)

lemma load_no_cards: "completed_cards s = [] \<Longrightarrow> domContentLoaded s = (None, flash_setup s)"
  using completed_cards_cong [of "flash_setup s" s]
  by (simp add: domContentLoaded_def toggle_setup_no_cards)

lemma load_cards:
  assumes "task_list s = Some l" "completed_cards s \<noteq> []"
  shows "domContentLoaded s =
    insertBefore (parentElement l s) (next_id s) l (with_button (flash_setup s))"
proof -
  have "task_list (flash_setup s) = Some l" "completed_cards (flash_setup s) \<noteq> []"
    using assms task_list_cong [of "flash_setup s" s] completed_cards_cong [of "flash_setup s" s]
    by simp_all
  from toggle_setup_cards [OF this] show ?thesis
    by (simp add: domContentLoaded_def parentElement_def)
qed

lemma load_cards_root:
  assumes "task_list s = Some l" "completed_cards s \<noteq> []" "parentElement l s = None"
  shows "domContentLoaded s = (Some TypeError, with_button (flash_setup s))"
  using assms by (simp add: load_cards insertBefore_def)

lemma load_cards_parent:
  assumes "task_list s = Some l" "completed_cards s \<noteq> []" "parentElement l s = Some p"
  shows "domContentLoaded s =
    (None, (with_button (flash_setup s))\<lparr>doc := insert_f p (Node (next_id s) []) l (doc s)\<rparr>)"
  using assms by (simp add: load_cards insertBefore_def parentElement_def)

lemma completed_with_button_flash [simp]:
  "completed_cards (flash_setup s) = completed_cards s"
  by (rule completed_cards_cong) simp_all

lemma task_list_in_doc: "task_list s = Some l \<Longrightarrow> l \<in> set (ids_f (doc s))"
  by (auto simp: task_list_def find_Some_iff)

lemma wf_fresh: "wf_page s \<Longrightarrow> elems s (next_id s) = None"
  by (auto simp: wf_page_def)

lemma wf_fresh_doc: "wf_page s \<Longrightarrow> next_id s \<notin> set (ids_f (doc s))"
  by (auto simp: wf_page_def)

lemma page_tasks_wf: "wf_page page_tasks"
  by (simp add: page_tasks_def wf_page_def)

lemma page_tasks_facts:
  "task_list page_tasks = Some 3" "completed_cards page_tasks = [5]"
  "parentElement 3 page_tasks = Some 1" "flash_elements page_tasks = [2]"
  by code_simp+

lemma page_tasks_next: "next_id page_tasks = 6" "timers page_tasks = []" "click_listener page_tasks = None"
  by (simp_all add: page_tasks_def)

lemma page_root_list_wf: "wf_page page_root_list"
  by (simp add: page_root_list_def wf_page_def)

lemma page_root_list_facts:
  "task_list page_root_list = Some 0"
  "completed_cards page_root_list = [2]" "parentElement 0 page_root_list = None"
  by code_simp+

lemma page_plain_wf: "wf_page page_plain"
  by (simp add: page_plain_def wf_page_def)

lemma page_plain_facts: "task_list page_plain = None" "completed_cards page_plain = []"
  by code_simp+

lemma page_open_tasks_wf: "wf_page page_open_tasks"
  by (simp add: page_open_tasks_def wf_page_def)

lemma page_open_tasks_facts:
  "task_list page_open_tasks = Some 2" "completed_cards page_open_tasks = []"
  "flash_elements page_open_tasks = []"
  by code_simp+

subsection \<open>The state after load, when completed cards exist\<close>

lemma load_cards_state:
  assumes "completed_cards s \<noteq> []"
  shows "elems (snd (domContentLoaded s)) = (elems s)(next_id s \<mapsto> button_element)"
    and "click_listener (snd (domContentLoaded s)) =
      Some \<lparr>toggle = next_id s, completed = completed_cards s, hidden = False\<rparr>"
    and "next_id (snd (domContentLoaded s)) = Suc (next_id s)"
    and "now (snd (domContentLoaded s)) = now s"
    and "timers (snd (domContentLoaded s)) = timers (flash_setup s)"
proof -
  from assms obtain l where l: "task_list s = Some l" using completed_cards_task_list by blast
  show "elems (snd (domContentLoaded s)) = (elems s)(next_id s \<mapsto> button_element)"
    and "click_listener (snd (domContentLoaded s)) =
      Some \<lparr>toggle = next_id s, completed = completed_cards s, hidden = False\<rparr>"
    and "next_id (snd (domContentLoaded s)) = Suc (next_id s)"
    and "now (snd (domContentLoaded s)) = now s"
    and "timers (snd (domContentLoaded s)) = timers (flash_setup s)"
    using l assms
    by (cases "parentElement l s"; simp add: load_cards_root load_cards_parent)+
qed

lemma completed_cards_exist: "set (completed_cards s) \<subseteq> dom (elems s)"
  by (auto simp: completed_cards_def is_class_def split: option.splits)

lemma load_toggle_ready:
  "completed_cards s \<noteq> [] \<Longrightarrow> toggle_ready (snd (domContentLoaded s))"
  using completed_cards_exist [of s] by (auto simp: toggle_ready_def load_cards_state)

lemma load_label:
  "completed_cards s \<noteq> [] \<Longrightarrow> label (snd (domContentLoaded s)) = Some ''Hide completed tasks''"
  by (simp add: label_def load_cards_state button_element_def)

subsection \<open>Timer callbacks leave the toggle alone\<close>

lemma forEach_preserves:
  assumes "\<And>x s. g (f x s) = g s"
  shows "g (forEach f xs s) = g s"
  by (induction xs arbitrary: s) (simp_all add: assms)

lemma foldl_preserves:
  assumes "\<And>s x. g (f s x) = g s"
  shows "g (foldl f s xs) = g s"
  by (induction xs arbitrary: s) (simp_all add: assms)

lemma fade_flash_fields [simp]:
  "doc (fade_flash f s) = doc s"
  "next_id (fade_flash f s) = next_id s"
  "now (fade_flash f s) = now s"
  "timers (fade_flash f s) = timers s"
  "click_listener (fade_flash f s) = click_listener s"
  "dom (elems (fade_flash f s)) = dom (elems s)"
  by (simp_all add: fade_flash_def)

lemma element_remove_fields [simp]:
  "elems (element_remove f s) = elems s"
  "next_id (element_remove f s) = next_id s"
  "now (element_remove f s) = now s"
  "timers (element_remove f s) = timers s"
  "click_listener (element_remove f s) = click_listener s"
  by (simp_all add: element_remove_def)

lemma run_callback_listener [simp]: "click_listener (run_callback cb s) = click_listener s"
  by (cases cb) (simp_all add: setTimeout_def forEach_preserves [where g = click_listener])

lemma run_callback_dom [simp]: "dom (elems (run_callback cb s)) = dom (elems s)"
  by (cases cb)
     (simp_all add: setTimeout_def forEach_preserves [where g = "\<lambda>s. dom (elems s)"])

lemma run_due_listener [simp]: "click_listener (run_due s) = click_listener s"
  by (simp add: run_due_def foldl_preserves [where g = click_listener])

lemma run_due_dom [simp]: "dom (elems (run_due s)) = dom (elems s)"
  by (simp add: run_due_def foldl_preserves [where g = "\<lambda>s. dom (elems s)"])

lemma advance_listener [simp]: "click_listener (advance n s) = click_listener s"
  by (induction n arbitrary: s) simp_all

lemma advance_dom [simp]: "dom (elems (advance n s)) = dom (elems s)"
  by (induction n arbitrary: s) simp_all

lemma run_dom [simp]: "dom (elems (run es s)) = dom (elems s)"
proof (induction es arbitrary: s)
  case Nil
  then show ?case by simp
next
  case (Cons e es)
  then show ?case by (cases e) simp_all
qed

lemma run_listener:
  "click_listener s = Some c \<Longrightarrow>
   click_listener (run es s) = Some (c\<lparr>hidden := (hidden c \<noteq> odd (clicks es))\<rparr>)"
proof (induction es arbitrary: s c)
  case Nil
  then show ?case by simp
next
  case (Cons e es)
  show ?case
  proof (cases e)
    case Click
    have "click_listener (click s) = Some (c\<lparr>hidden := \<not> hidden c\<rparr>)"
      using Cons.prems by (simp add: click_listener_click)
    from Cons.IH [OF this] Click show ?thesis by auto
  next
    case (Elapse n)
    have "click_listener (advance n s) = Some c" using Cons.prems by simp
    from Cons.IH [OF this] Elapse show ?thesis by simp
  qed
qed

subsection \<open>Two clicks\<close>

lemma click_click:
  assumes c: "click_listener s = Some c" and shown: "\<not> hidden c"
    and clear: "\<And>card e. card \<in> set (completed c) \<Longrightarrow> elems s card = Some e \<Longrightarrow>
                  style e ''display'' = None"
    and lab: "\<And>e. elems s (toggle c) = Some e \<Longrightarrow> textContent e = ''Hide completed tasks''"
  shows "click (click s) = s"
proof -
  let ?c' = "c\<lparr>hidden := True\<rparr>"
  have c1: "click s = on_click c s" using c by (simp add: click_def)
  have c2: "click (click s) = on_click ?c' (on_click c s)"
    using c shown by (simp add: click_def)
  have "elems (on_click ?c' (on_click c s)) j = elems s j" for j
  proof (cases "elems s j")
    case None
    then show ?thesis by (simp add: elems_on_click)
  next
    case (Some e)
    have st: "assign ''display'' [] (assign ''display'' ''none'' (style e)) = style e"
      if "j \<in> set (completed c)"
      using clear [OF that Some] by (auto simp: assign_def)
    have tx: "e\<lparr>textContent := ''Hide completed tasks''\<rparr> = e" if "j = toggle c"
      using lab [of e] Some that by simp
    show ?thesis using Some shown st tx by (simp add: elems_on_click)
  qed
  then have "elems (on_click ?c' (on_click c s)) = elems s" by (rule ext)
  moreover have "click_listener (on_click ?c' (on_click c s)) = click_listener s"
    using c shown by simp
  ultimately show ?thesis unfolding c2 by (intro page.equality) simp_all
qed

lemma funpow_even_id:
  assumes "f (f x) = x" "even n"
  shows "(f ^^ n) x = x"
proof -
  from assms(2) obtain k where "n = 2 * k" by (auto elim: evenE)
  moreover have "(f ^^ (2 * k)) x = x"
    by (induction k) (simp_all add: assms(1) funpow_swap1)
  ultimately show ?thesis by simp
qed

subsection \<open>Elements outside the completed set\<close>

lemma not_done_not_completed: "\<not> is_class ''task-done'' s i \<Longrightarrow> i \<notin> set (completed_cards s)"
  by (auto simp: completed_cards_def split: option.splits)

lemma clicks_frame:
  assumes "click_listener s = Some c" "i \<notin> set (completed c)" "i \<noteq> toggle c"
  shows "elems ((click ^^ n) s) i = elems s i \<and> doc ((click ^^ n) s) = doc s \<and>
    (\<exists>h. click_listener ((click ^^ n) s) = Some (c\<lparr>hidden := h\<rparr>))"
proof (induction n)
  case 0
  have "c = c\<lparr>hidden := hidden c\<rparr>" by simp
  then show ?case using assms(1) by (auto intro: exI [of _ "hidden c"])
next
  case (Suc n)
  then obtain h where h: "click_listener ((click ^^ n) s) = Some (c\<lparr>hidden := h\<rparr>)"
    by blast
  have "elems (click ((click ^^ n) s)) i = elems ((click ^^ n) s) i"
    using h assms(2,3) by (intro elems_click_other [where c = "c\<lparr>hidden := h\<rparr>"]) simp_all
  moreover have "click_listener (click ((click ^^ n) s)) = Some (c\<lparr>hidden := \<not> h\<rparr>)"
    using h by (simp add: click_listener_click)
  then have "\<exists>h'. click_listener (click ((click ^^ n) s)) = Some (c\<lparr>hidden := h'\<rparr>)"
    by blast
  ultimately show ?case using Suc by simp
qed

lemma clicks_no_listener: "click_listener s = None \<Longrightarrow> (click ^^ n) s = s"
  by (induction n) (simp_all add: click_def)

subsection \<open>Quiet time\<close>

lemma run_due_quiet:
  assumes "\<forall>tm \<in> set (timers s). now s < fst tm"
  shows "run_due s = s"
proof -
  have "filter (is_due (now s)) (timers s) = []"
    using assms by (auto simp: filter_empty_conv is_due_def)
  moreover have "filter (\<lambda>tm. \<not> is_due (now s) tm) (timers s) = timers s"
    using assms by (auto simp: filter_id_conv is_due_def)
  ultimately show ?thesis by (simp add: run_due_def)
qed

lemma advance_quiet:
  "\<forall>tm \<in> set (timers s). now s + n < fst tm \<Longrightarrow> advance n s = s\<lparr>now := now s + n\<rparr>"
proof (induction n arbitrary: s)
  case 0
  then show ?case by simp
next
  case (Suc n)
  let ?s = "s\<lparr>now := Suc (now s)\<rparr>"
  have "run_due ?s = ?s" using Suc.prems by (intro run_due_quiet) auto
  moreover have "advance n ?s = ?s\<lparr>now := now ?s + n\<rparr>"
    using Suc.prems by (intro Suc.IH) auto
  ultimately show ?case by simp
qed

lemma advance_add: "advance (m + n) s = advance n (advance m s)"
  by (induction m arbitrary: s) simp_all

lemma run_due_single:
  assumes "timers s = [(now s, cb)]"
  shows "run_due s = run_callback cb (s\<lparr>timers := []\<rparr>)"
  using assms by (simp add: run_due_def is_due_def)

subsection \<open>The fade and the removal\<close>

lemma elems_fade_flash_other: "j \<noteq> f \<Longrightarrow> elems (fade_flash f s) j = elems s j"
  by (simp add: fade_flash_def elems_set_style)

lemma faded_fade_flash: "f \<in> dom (elems s) \<Longrightarrow> faded (fade_flash f s) f"
  by (auto simp: faded_def fade_flash_def elems_set_style assign_apply)

lemma faded_fade_flash_kept: "faded s j \<Longrightarrow> faded (fade_flash f s) j"
  by (cases "j = f")
     (auto simp: faded_def fade_flash_def elems_set_style assign_apply split: option.splits)

lemma faded_forEach_kept: "faded s j \<Longrightarrow> faded (forEach fade_flash fl s) j"
  by (induction fl arbitrary: s) (simp_all add: faded_fade_flash_kept)

lemma faded_forEach:
  "f \<in> set fl \<Longrightarrow> f \<in> dom (elems s) \<Longrightarrow> faded (forEach fade_flash fl s) f"
proof (induction fl arbitrary: s)
  case Nil
  then show ?case by simp
next
  case (Cons g fl)
  show ?case
  proof (cases "f = g")
    case True
    with Cons.prems(2) have "faded (fade_flash g s) f" by (simp add: faded_fade_flash)
    then show ?thesis by (simp add: faded_forEach_kept)
  next
    case False
    with Cons.prems have "f \<in> set fl" "f \<in> dom (elems (fade_flash g s))" by simp_all
    from Cons.IH [OF this] show ?thesis by simp
  qed
qed

lemma ids_remove_f: "set (ids_f (remove_f i ts)) \<subseteq> set (ids_f ts) - {i}"
  by (induction ts rule: ids_f.induct) auto

lemma attached_remove_self: "\<not> attached (element_remove f s) f"
  using ids_remove_f [of f "doc s"] by (auto simp: attached_def element_remove_def)

lemma attached_remove_kept: "\<not> attached s j \<Longrightarrow> \<not> attached (element_remove f s) j"
  using ids_remove_f [of f "doc s"] by (auto simp: attached_def element_remove_def)

lemma detached_forEach_kept: "\<not> attached s j \<Longrightarrow> \<not> attached (forEach element_remove fl s) j"
  by (induction fl arbitrary: s) (simp_all add: attached_remove_kept)

lemma detached_forEach: "f \<in> set fl \<Longrightarrow> \<not> attached (forEach element_remove fl s) f"
proof (induction fl arbitrary: s)
  case Nil
  then show ?case by simp
next
  case (Cons g fl)
  show ?case
  proof (cases "f = g")
    case True
    have "\<not> attached (element_remove g s) f" unfolding True by (rule attached_remove_self)
    then show ?thesis by (simp add: detached_forEach_kept)
  next
    case False
    with Cons.prems have "f \<in> set fl" by simp
    from Cons.IH [OF this] show ?thesis by simp
  qed
qed

lemma faded_cong: "elems s' = elems s \<Longrightarrow> faded s' = faded s"
  by (rule ext) (simp add: faded_def)

lemma attached_cong: "doc s' = doc s \<Longrightarrow> attached s' = attached s"
  by (rule ext) (simp add: attached_def)

lemma faded_click: "faded (click s) f = faded s f"
proof (cases "click_listener s")
  case None
  then show ?thesis by (simp add: click_def)
next
  case (Some c)
  then show ?thesis
    by (cases "elems s f") (simp_all add: click_def faded_def elems_on_click assign_apply)
qed

subsection \<open>The clock\<close>

lemma run_callback_now [simp]: "now (run_callback cb s) = now s"
  by (cases cb) (simp_all add: setTimeout_def forEach_preserves [where g = now])

lemma run_due_now [simp]: "now (run_due s) = now s"
  by (simp add: run_due_def foldl_preserves [where g = now])

lemma advance_now [simp]: "now (advance n s) = now s + n"
  by (induction n arbitrary: s) simp_all

lemma run_now: "now (run es s) = now s + elapsed es"
proof (induction es arbitrary: s)
  case Nil
  then show ?case by simp
next
  case (Cons e es)
  then show ?case by (cases e) simp_all
qed

subsection \<open>The dismiss sequence\<close>

lemma dismiss_tick:
  assumes "dismiss_state t0 fl d s"
  shows "dismiss_state t0 fl d (run_due (s\<lparr>now := Suc (now s)\<rparr>))"
proof -
  let ?s = "s\<lparr>now := Suc (now s)\<rparr>"
  consider (wait) "Suc (now s) < t0 + 4000"
    | (fade) "Suc (now s) = t0 + 4000"
    | (fading) "t0 + 4000 \<le> now s" "Suc (now s) < t0 + 4400"
    | (remove) "Suc (now s) = t0 + 4400"
    | (over) "t0 + 4400 \<le> now s"
    by linarith
  then show ?thesis
  proof cases
    case wait
    with assms have "run_due ?s = ?s"
      by (intro run_due_quiet) (simp add: dismiss_state_def)
    with assms wait show ?thesis by (simp add: dismiss_state_def)
  next
    case fade
    with assms have t: "timers s = [(t0 + 4000, FadeFlashes fl)]" and d: "doc s = d"
      and ex: "set fl \<subseteq> dom (elems s)"
      by (simp_all add: dismiss_state_def)
    let ?s' = "forEach fade_flash fl (?s\<lparr>timers := []\<rparr>)"
    have run: "run_due ?s = setTimeout (RemoveFlashes fl) 400 ?s'"
      using t fade by (simp add: run_due_single)
    have "now ?s' = t0 + 4000" "timers ?s' = []" "doc ?s' = d"
      using fade d
      by (simp_all add: forEach_preserves [where g = now] forEach_preserves [where g = timers]
          forEach_preserves [where g = doc])
    moreover have "list_all (faded ?s') fl"
      using ex by (auto simp: list_all_iff intro!: faded_forEach)
    moreover have "faded (setTimeout (RemoveFlashes fl) 400 ?s') = faded ?s'"
      by (rule faded_cong) (simp add: setTimeout_def)
    ultimately show ?thesis
      unfolding run by (simp add: dismiss_state_def setTimeout_def)
  next
    case fading
    from fading assms have "run_due ?s = ?s"
      by (intro run_due_quiet) (simp add: dismiss_state_def)
    moreover have "faded ?s = faded s" by (rule faded_cong) simp
    ultimately show ?thesis
      using assms fading by (simp add: dismiss_state_def)
  next
    case remove
    with assms have t: "timers s = [(t0 + 4400, RemoveFlashes fl)]"
      and fd: "list_all (faded s) fl"
      by (simp_all add: dismiss_state_def)
    let ?s' = "forEach element_remove fl (?s\<lparr>timers := []\<rparr>)"
    have run: "run_due ?s = ?s'"
      using t remove by (simp add: run_due_single)
    have el: "elems ?s' = elems s"
      by (simp add: forEach_preserves [where g = elems])
    have "now ?s' = t0 + 4400" "timers ?s' = []"
      using remove
      by (simp_all add: forEach_preserves [where g = now] forEach_preserves [where g = timers])
    moreover have "list_all (\<lambda>f. \<not> attached ?s' f) fl"
      by (auto simp: list_all_iff intro!: detached_forEach)
    moreover have "faded ?s' = faded s" using el by (rule faded_cong)
    ultimately show ?thesis
      unfolding run using fd by (simp add: dismiss_state_def)
  next
    case over
    with assms have "run_due ?s = ?s"
      by (intro run_due_quiet) (simp add: dismiss_state_def)
    moreover have "faded ?s = faded s" by (rule faded_cong) simp
    moreover have "attached ?s = attached s" by (rule attached_cong) simp
    ultimately show ?thesis
      using assms over by (simp add: dismiss_state_def)
  qed
qed

lemma dismiss_advance: "dismiss_state t0 fl d s \<Longrightarrow> dismiss_state t0 fl d (advance n s)"
  by (induction n arbitrary: s) (simp_all add: dismiss_tick)

lemma dismiss_click:
  assumes "dismiss_state t0 fl d s"
  shows "dismiss_state t0 fl d (click s)"
proof -
  have "faded (click s) = faded s" by (rule ext) (rule faded_click)
  moreover have "attached (click s) = attached s" by (rule attached_cong) simp
  ultimately show ?thesis using assms by (simp add: dismiss_state_def)
qed

lemma dismiss_run: "dismiss_state t0 fl d s \<Longrightarrow> dismiss_state t0 fl d (run es s)"
proof (induction es arbitrary: s)
  case Nil
  then show ?case by simp
next
  case (Cons e es)
  then show ?case by (cases e) (simp_all add: dismiss_click dismiss_advance)
qed

subsection \<open>The timers after load\<close>

lemma load_timers: "timers (snd (domContentLoaded s)) = timers (flash_setup s)"
  by (cases "completed_cards s = []") (simp_all add: load_no_cards load_cards_state)

lemma load_now: "now (snd (domContentLoaded s)) = now s"
  by (cases "completed_cards s = []") (simp_all add: load_no_cards load_cards_state)

lemma load_dom: "dom (elems s) \<subseteq> dom (elems (snd (domContentLoaded s)))"
  by (cases "completed_cards s = []") (auto simp: load_no_cards load_cards_state)

lemma flash_elements_exist: "set (flash_elements s) \<subseteq> dom (elems s)"
  by (auto simp: flash_elements_def is_class_def split: option.splits)

lemma dismiss_load:
  assumes "timers s0 = []" "flash_elements s0 \<noteq> []"
  shows "dismiss_state (now s0) (flash_elements s0) (doc (snd (domContentLoaded s0)))
    (snd (domContentLoaded s0))"
  using assms flash_elements_exist [of s0] load_dom [of s0]
  by (auto simp: dismiss_state_def load_timers load_now timers_flash_setup)





lemma page_tasks_at_load: "at_load page_tasks"
  using page_tasks_wf by (simp add: at_load_def page_tasks_next)

lemma page_tasks_cards: "completed_cards page_tasks \<noteq> []"
  by (simp add: page_tasks_facts)

lemma page_tasks_flashes: "flash_elements page_tasks \<noteq> []"
  by (simp add: page_tasks_facts)

lemma page_tasks_elems:
  "display_of page_tasks 5 = Some None" "elems page_tasks 4 \<noteq> None"
  "\<not> is_class ''task-done'' page_tasks 4" "now page_tasks = 0"
  by code_simp+

lemma page_preset_display_facts:
  "completed_cards page_preset_display = [3]"
  "display_of page_preset_display 3 = Some (Some ''flex'')"
  "next_id page_preset_display \<noteq> 3"
  by code_simp+

subsection \<open>What the handler inserted\<close>

lemma inserted_same_doc: "doc s' = doc s \<Longrightarrow> inserted s s' = []"
  by (simp add: inserted_def)

lemma inserted_one:
  assumes "ids_f (doc s) = xs @ l # ys" "ids_f (doc s') = xs @ b # l # ys"
    "b \<notin> set (ids_f (doc s))"
  shows "inserted s s' = [b]"
  using assms by (simp add: inserted_def)

section \<open>The claims\<close>

text \<open>
  C1, as the code has it. Provided the task-list container has a parent element whenever
  it holds a completed card: the handler inserts an element into the document if and only
  if at least one completed card exists inside the task-list container at load time. When
  one exists, the handler raises nothing and inserts exactly one element, the toggle
  button: a \<^verbatim>\<open>button\<close> with the label "Hide completed tasks" and the class \<^verbatim>\<open>btn-ghost\<close>, with
  the click listener registered for it and for the completed cards, in state shown. When
  the container is absent, or has no completed card, the handler raises nothing and leaves
  the document, every element object and the listener slot as they were.
\<close>

theorem toggle_inserted_iff_completed:
  assumes "wf_page s"
    and "\<forall>l. task_list s = Some l \<and> completed_cards s \<noteq> [] \<longrightarrow> parentElement l s \<noteq> None"
  shows "(inserted s (snd (domContentLoaded s)) \<noteq> [] \<longleftrightarrow> completed_cards s \<noteq> []) \<and>
    (completed_cards s \<noteq> [] \<longrightarrow>
       fst (domContentLoaded s) = None \<and>
       inserted s (snd (domContentLoaded s)) = [next_id s] \<and>
       elems (snd (domContentLoaded s)) (next_id s) =
         Some \<lparr>localName = ''button'', className = ''btn-ghost'', typeAttr = ''button'',
               textContent = ''Hide completed tasks'',
               style = [''marginBottom'' \<mapsto> ''12px'']\<rparr> \<and>
       click_listener (snd (domContentLoaded s)) =
         Some \<lparr>toggle = next_id s, completed = completed_cards s, hidden = False\<rparr>) \<and>
    (task_list s = None \<or> completed_cards s = [] \<longrightarrow>
       fst (domContentLoaded s) = None \<and>
       doc (snd (domContentLoaded s)) = doc s \<and>
       elems (snd (domContentLoaded s)) = elems s \<and>
       click_listener (snd (domContentLoaded s)) = click_listener s)"
proof (cases "completed_cards s = []")
  case True
  then have "domContentLoaded s = (None, flash_setup s)" by (rule load_no_cards)
  with True show ?thesis by (simp add: inserted_same_doc)
next
  case False
  then obtain l where l: "task_list s = Some l" using completed_cards_task_list by blast
  with assms(2) False obtain p where p: "parentElement l s = Some p" by auto
  let ?b = "next_id s"
  let ?s1 = "snd (domContentLoaded s)"
  have load: "domContentLoaded s =
    (None, (with_button (flash_setup s))\<lparr>doc := insert_f p (Node ?b []) l (doc s)\<rparr>)"
    using l False p by (rule load_cards_parent)
  have dist: "distinct (ids_f (doc s))" using assms(1) by (simp add: wf_page_def)
  have par: "parent_f l (doc s) = Some p" using p by (simp add: parentElement_def)
  have fresh: "?b \<notin> set (ids_f (doc s))" using assms(1) by (rule wf_fresh_doc)
  from ids_insert_f [OF dist par, of ?b] obtain xs ys where
    "ids_f (doc s) = xs @ l # ys" "ids_f (doc ?s1) = xs @ ?b # l # ys"
    by (auto simp: load)
  then have ins: "inserted s ?s1 = [?b]" using fresh by (rule inserted_one)
  have "fst (domContentLoaded s) = None" by (simp add: load)
  moreover have "elems ?s1 ?b = Some button_element" by (simp add: load)
  moreover have "click_listener ?s1 =
      Some \<lparr>toggle = ?b, completed = completed_cards s, hidden = False\<rparr>"
    by (simp add: load)
  ultimately show ?thesis using ins False l by (simp add: button_element_def)
qed

theorem toggle_inserted_iff_completed_witness:
  "wf_page page_tasks \<and> task_list page_tasks = Some 3 \<and> parentElement 3 page_tasks = Some 1 \<and>
   completed_cards page_tasks = [5] \<and>
   fst (domContentLoaded page_tasks) = None \<and>
   inserted page_tasks (snd (domContentLoaded page_tasks)) = [6] \<and>
   map_option textContent (elems (snd (domContentLoaded page_tasks)) 6) =
     Some ''Hide completed tasks'' \<and>
   click_listener (snd (domContentLoaded page_tasks)) =
     Some \<lparr>toggle = 6, completed = [5], hidden = False\<rparr> \<and>
   wf_page page_open_tasks \<and> completed_cards page_open_tasks = [] \<and>
   inserted page_open_tasks (snd (domContentLoaded page_open_tasks)) = [] \<and>
   doc (snd (domContentLoaded page_open_tasks)) = doc page_open_tasks \<and>
   elems (snd (domContentLoaded page_open_tasks)) = elems page_open_tasks \<and>
   wf_page page_plain \<and> task_list page_plain = None \<and>
   inserted page_plain (snd (domContentLoaded page_plain)) = [] \<and>
   doc (snd (domContentLoaded page_plain)) = doc page_plain \<and>
   elems (snd (domContentLoaded page_plain)) = elems page_plain"
proof -
  have h1: "\<forall>l. task_list page_tasks = Some l \<and> completed_cards page_tasks \<noteq> [] \<longrightarrow>
      parentElement l page_tasks \<noteq> None"
    by (simp add: page_tasks_facts)
  have h2: "\<forall>l. task_list page_open_tasks = Some l \<and> completed_cards page_open_tasks \<noteq> [] \<longrightarrow>
      parentElement l page_open_tasks \<noteq> None"
    by (simp add: page_open_tasks_facts)
  have h3: "\<forall>l. task_list page_plain = Some l \<and> completed_cards page_plain \<noteq> [] \<longrightarrow>
      parentElement l page_plain \<noteq> None"
    by (simp add: page_plain_facts)
  show ?thesis
    using toggle_inserted_iff_completed [OF page_tasks_wf h1]
      toggle_inserted_iff_completed [OF page_open_tasks_wf h2]
      toggle_inserted_iff_completed [OF page_plain_wf h3]
      page_tasks_wf page_open_tasks_wf page_plain_wf
    by (simp add: page_tasks_facts page_tasks_next page_open_tasks_facts page_plain_facts)
qed

text \<open>
  C1 as stated fails where the task-list container is the root element and holds a
  completed card: the handler makes the button object and then stops with a TypeError at
  the insertion, so that nothing is inserted and no element of the document is a button.
\<close>

theorem toggle_absent_at_root_counterexample:
  "completed_cards page_root_list = [2] \<and>
   inserted page_root_list (snd (domContentLoaded page_root_list)) = [] \<and>
   buttons_in_document (snd (domContentLoaded page_root_list)) = []"
  by code_simp

text \<open>
  C2. The toggle has two states, given by \<^verbatim>\<open>hidden\<close>, and starts shown with the label
  "Hide completed tasks". After any trace of clicks and waits the state is hidden exactly
  when the number of clicks so far is odd. A click in state shown (an even number of clicks
  so far) gives every completed card the inline display \<^verbatim>\<open>none\<close> and the label "Show
  completed tasks", and the state is hidden; a click in state hidden clears the inline
  display of every completed card, gives the label "Hide completed tasks", and the state is
  shown. The passing of time, with the timers it runs, never changes the state.
\<close>

theorem toggle_two_states:
  assumes "completed_cards s0 \<noteq> []" "s = run es (snd (domContentLoaded s0))"
  shows "label (snd (domContentLoaded s0)) = Some ''Hide completed tasks'' \<and>
    click_listener s =
      Some \<lparr>toggle = next_id s0, completed = completed_cards s0, hidden = odd (clicks es)\<rparr> \<and>
    click_listener (click s) =
      Some \<lparr>toggle = next_id s0, completed = completed_cards s0, hidden = even (clicks es)\<rparr> \<and>
    (\<forall>card \<in> set (completed_cards s0).
       display_of (click s) card = Some (if even (clicks es) then Some ''none'' else None)) \<and>
    label (click s) =
      Some (if even (clicks es) then ''Show completed tasks'' else ''Hide completed tasks'') \<and>
    (\<forall>n. click_listener (advance n s) = click_listener s)"
proof -
  let ?s1 = "snd (domContentLoaded s0)"
  let ?c = "\<lparr>toggle = next_id s0, completed = completed_cards s0, hidden = odd (clicks es)\<rparr>"
  have l1: "click_listener ?s1 =
      Some \<lparr>toggle = next_id s0, completed = completed_cards s0, hidden = False\<rparr>"
    using assms(1) by (rule load_cards_state)
  have ls: "click_listener s = Some ?c"
    using run_listener [OF l1, of es] assms(2) by simp
  have ready: "toggle_ready ?s1" using assms(1) by (rule load_toggle_ready)
  then have cards: "set (completed_cards s0) \<subseteq> dom (elems s)"
    and btn: "next_id s0 \<in> dom (elems s)"
    using l1 assms(2) by (simp_all add: toggle_ready_def)
  have "display_of (click s) card = Some (if even (clicks es) then Some ''none'' else None)"
    if "card \<in> set (completed_cards s0)" for card
  proof -
    from that cards have "card \<in> dom (elems s)" by blast
    with display_of_click [OF ls, of card] that show ?thesis by simp
  qed
  moreover have "label (click s) =
      Some (if even (clicks es) then ''Show completed tasks'' else ''Hide completed tasks'')"
    using label_click [OF ls] btn by auto
  moreover have "click_listener (click s) =
      Some \<lparr>toggle = next_id s0, completed = completed_cards s0, hidden = even (clicks es)\<rparr>"
    using ls by (simp add: click_listener_click)
  ultimately show ?thesis using ls assms(1) by (simp add: load_label)
qed

theorem toggle_two_states_witness:
  "completed_cards page_tasks \<noteq> [] \<and>
   label (snd (domContentLoaded page_tasks)) = Some ''Hide completed tasks'' \<and>
   display_of (click (run [Click, Elapse 5, Click] (snd (domContentLoaded page_tasks)))) 5 =
     Some (Some ''none'') \<and>
   label (click (run [Click, Elapse 5, Click] (snd (domContentLoaded page_tasks)))) =
     Some ''Show completed tasks'' \<and>
   display_of (click (run [Click] (snd (domContentLoaded page_tasks)))) 5 = Some None \<and>
   label (click (run [Click] (snd (domContentLoaded page_tasks)))) =
     Some ''Hide completed tasks''"
  using toggle_two_states [OF page_tasks_cards refl, of "[Click, Elapse 5, Click]"]
    toggle_two_states [OF page_tasks_cards refl, of "[Click]"] page_tasks_cards
  by (simp add: page_tasks_facts)



text \<open>
  C4, as the code has it. For every page with at least one completed card, none of which
  has an inline display at load, and every even number of clicks, the page after the
  clicks is the page after load: every element object, the document, the label and the
  state of the toggle.
\<close>

theorem even_clicks_restore:
  assumes "completed_cards s0 \<noteq> []"
    and "\<forall>card \<in> set (completed_cards s0). display_of s0 card = Some None"
    and "even n"
  shows "(click ^^ n) (snd (domContentLoaded s0)) = snd (domContentLoaded s0)"
proof -
  let ?s1 = "snd (domContentLoaded s0)"
  let ?c = "\<lparr>toggle = next_id s0, completed = completed_cards s0, hidden = False\<rparr>"
  have l1: "click_listener ?s1 = Some ?c" using assms(1) by (rule load_cards_state)
  have e1: "elems ?s1 = (elems s0)(next_id s0 \<mapsto> button_element)"
    using assms(1) by (rule load_cards_state)
  have "click (click ?s1) = ?s1"
  proof (rule click_click [OF l1])
    show "\<not> hidden ?c" by simp
  next
    fix card e
    assume "card \<in> set (completed ?c)" "elems ?s1 card = Some e"
    then show "style e ''display'' = None"
      using assms(2) by (auto simp: e1 display_of_def button_element_def split: if_splits)
  next
    fix e
    assume "elems ?s1 (toggle ?c) = Some e"
    then show "textContent e = ''Hide completed tasks''"
      by (auto simp: e1 button_element_def)
  qed
  then show ?thesis using assms(3) by (rule funpow_even_id)
qed

theorem even_clicks_restore_witness:
  "completed_cards page_tasks = [5] \<and> display_of page_tasks 5 = Some None \<and>
   (click ^^ 2) (snd (domContentLoaded page_tasks)) = snd (domContentLoaded page_tasks)"
proof -
  have "\<forall>card \<in> set (completed_cards page_tasks). display_of page_tasks card = Some None"
    by (simp add: page_tasks_facts page_tasks_elems)
  from even_clicks_restore [OF page_tasks_cards this, of 2] show ?thesis
    by (simp add: page_tasks_facts page_tasks_elems)
qed

text \<open>
  C4 as stated fails for a completed card that has an inline display at load. The card
  of the example page is laid out at load by its own inline \<^verbatim>\<open>display: flex\<close>; two clicks
  clear that declaration, and the card is left with the display of the style sheets
  (\<^verbatim>\<open>block\<close>, say), not with the one it had after zero clicks.
\<close>

theorem two_clicks_clear_preset_display_counterexample:
  "completed_cards page_preset_display = [3] \<and>
   effective_display ''block'' (snd (domContentLoaded page_preset_display)) 3 = ''flex'' \<and>
   effective_display ''block'' ((click ^^ 2) (snd (domContentLoaded page_preset_display))) 3 =
     ''block''"
proof -
  let ?s1 = "snd (domContentLoaded page_preset_display)"
  let ?c = "\<lparr>toggle = next_id page_preset_display,
              completed = completed_cards page_preset_display, hidden = False\<rparr>"
  have cards: "completed_cards page_preset_display \<noteq> []"
    by (simp add: page_preset_display_facts)
  have l1: "click_listener ?s1 = Some ?c" using cards by (rule load_cards_state)
  have e1: "elems ?s1 = (elems page_preset_display)(next_id page_preset_display \<mapsto> button_element)"
    using cards by (rule load_cards_state)
  have before: "display_of ?s1 3 = Some (Some ''flex'')"
    using page_preset_display_facts(2,3) by (simp add: display_of_def e1)
  have l2: "click_listener (click ?s1) = Some (?c\<lparr>hidden := True\<rparr>)"
    using l1 by (simp add: click_listener_click)
  have "3 \<in> dom (elems (click ?s1))" using before by (auto simp: display_of_def)
  with display_of_click [OF l2, of 3] have "display_of (click (click ?s1)) 3 = Some None"
    by (simp add: page_preset_display_facts)
  with before show ?thesis
    by (simp add: effective_display_def page_preset_display_facts numeral_2_eq_2)
qed

text \<open>
  C5. An element that exists at load and is not marked done, or is not in the load-time
  completed set, is never changed by the toggle: after any number of clicks its object is
  what it was at load, and the document is what it was after load, so no element has
  changed its place.
\<close>

theorem toggle_touches_only_completed:
  assumes "at_load s0" "elems s0 i \<noteq> None"
    and "\<not> is_class ''task-done'' s0 i \<or> i \<notin> set (completed_cards s0)"
  shows "elems ((click ^^ n) (snd (domContentLoaded s0))) i = elems s0 i \<and>
    doc ((click ^^ n) (snd (domContentLoaded s0))) = doc (snd (domContentLoaded s0))"
proof (cases "completed_cards s0 = []")
  case True
  then have "snd (domContentLoaded s0) = flash_setup s0" by (simp add: load_no_cards)
  moreover have "click_listener (flash_setup s0) = None"
    using assms(1) by (simp add: at_load_def)
  ultimately show ?thesis by (simp add: clicks_no_listener)
next
  case False
  let ?s1 = "snd (domContentLoaded s0)"
  let ?c = "\<lparr>toggle = next_id s0, completed = completed_cards s0, hidden = False\<rparr>"
  have l1: "click_listener ?s1 = Some ?c" using False by (rule load_cards_state)
  have e1: "elems ?s1 = (elems s0)(next_id s0 \<mapsto> button_element)"
    using False by (rule load_cards_state)
  have out: "i \<notin> set (completed ?c)" using assms(3) not_done_not_completed [of s0 i] by auto
  have "elems s0 (next_id s0) = None" using assms(1) by (simp add: at_load_def wf_fresh)
  with assms(2) have neq: "i \<noteq> toggle ?c" by auto
  from clicks_frame [OF l1 out neq, of n] neq show ?thesis by (simp add: e1)
qed

theorem toggle_touches_only_completed_witness:
  "at_load page_tasks \<and> elems page_tasks 4 \<noteq> None \<and> \<not> is_class ''task-done'' page_tasks 4 \<and>
   elems ((click ^^ 3) (snd (domContentLoaded page_tasks))) 4 = elems page_tasks 4 \<and>
   doc ((click ^^ 3) (snd (domContentLoaded page_tasks))) = doc (snd (domContentLoaded page_tasks))"
proof -
  have "\<not> is_class ''task-done'' page_tasks 4 \<or> 4 \<notin> set (completed_cards page_tasks)"
    by (simp add: page_tasks_elems)
  from toggle_touches_only_completed [OF page_tasks_at_load page_tasks_elems(2) this, of 3]
  show ?thesis by (simp add: page_tasks_at_load page_tasks_elems)
qed

text \<open>
  C6, as the code has it. When at least one completed card exists at load and the
  task-list container has a parent element, the handler raises nothing and inserts exactly
  one new element into the document: in document order it stands immediately before the
  container, it has the container's parent as its parent and is the container's previous
  sibling. It is a \<^verbatim>\<open>button\<close> of type \<^verbatim>\<open>button\<close> with the label "Hide completed tasks", the
  class \<^verbatim>\<open>btn-ghost\<close> (the ghost-button style marker) and a bottom margin of 12px. Every
  other element object is as it was.
\<close>

theorem toggle_inserted_before_task_list:
  assumes "wf_page s" "completed_cards s \<noteq> []" "task_list s = Some l"
    "parentElement l s = Some p"
  shows "fst (domContentLoaded s) = None \<and>
    elems s (next_id s) = None \<and>
    elems (snd (domContentLoaded s)) (next_id s) =
      Some \<lparr>localName = ''button'', className = ''btn-ghost'', typeAttr = ''button'',
            textContent = ''Hide completed tasks'', style = [''marginBottom'' \<mapsto> ''12px'']\<rparr> \<and>
    (\<forall>i. i \<noteq> next_id s \<longrightarrow> elems (snd (domContentLoaded s)) i = elems s i) \<and>
    (\<exists>xs ys. ids_f (doc s) = xs @ l # ys \<and>
       ids_f (doc (snd (domContentLoaded s))) = xs @ next_id s # l # ys) \<and>
    parentElement (next_id s) (snd (domContentLoaded s)) = Some p \<and>
    parentElement l (snd (domContentLoaded s)) = Some p \<and>
    previousElementSibling l (snd (domContentLoaded s)) = Some (next_id s)"
proof -
  let ?b = "next_id s"
  have load: "domContentLoaded s =
    (None, (with_button (flash_setup s))\<lparr>doc := insert_f p (Node ?b []) l (doc s)\<rparr>)"
    using assms(3,2,4) by (rule load_cards_parent)
  have dist: "distinct (ids_f (doc s))" using assms(1) by (simp add: wf_page_def)
  have par: "parent_f l (doc s) = Some p" using assms(4) by (simp add: parentElement_def)
  have fresh: "?b \<notin> set (ids_f (doc s))" using assms(1) by (rule wf_fresh_doc)
  have "l \<in> set (ids_f (doc s))" using assms(3) by (rule task_list_in_doc)
  with fresh have neq: "?b \<noteq> l" "l \<noteq> ?b" by auto
  have "elems s ?b = None" using assms(1) by (rule wf_fresh)
  moreover have "\<exists>xs ys. ids_f (doc s) = xs @ l # ys \<and>
       ids_f (insert_f p (Node ?b []) l (doc s)) = xs @ ?b # l # ys"
    using dist par by (rule ids_insert_f)
  moreover have "parent_f ?b (insert_f p (Node ?b []) l (doc s)) = Some p"
    using dist par fresh by (rule parent_f_new_leaf)
  moreover have "parent_f l (insert_f p (Node ?b []) l (doc s)) = Some p"
    using par neq by (simp add: parent_f_insert_f_other)
  moreover have "previous_f l (insert_f p (Node ?b []) l (doc s)) = Some ?b"
    using dist par neq(1) by (rule previous_f_new_leaf)
  ultimately show ?thesis
    by (simp add: load parentElement_def previousElementSibling_def button_element_def)
qed

theorem toggle_inserted_before_task_list_witness:
  "wf_page page_tasks \<and> completed_cards page_tasks \<noteq> [] \<and> task_list page_tasks = Some 3 \<and>
   parentElement 3 page_tasks = Some 1 \<and>
   fst (domContentLoaded page_tasks) = None \<and>
   map_option className (elems (snd (domContentLoaded page_tasks)) 6) = Some ''btn-ghost'' \<and>
   map_option textContent (elems (snd (domContentLoaded page_tasks)) 6) =
     Some ''Hide completed tasks'' \<and>
   (\<exists>xs ys. ids_f (doc page_tasks) = xs @ 3 # ys \<and>
      ids_f (doc (snd (domContentLoaded page_tasks))) = xs @ 6 # 3 # ys) \<and>
   parentElement 6 (snd (domContentLoaded page_tasks)) = Some 1 \<and>
   parentElement 3 (snd (domContentLoaded page_tasks)) = Some 1 \<and>
   previousElementSibling 3 (snd (domContentLoaded page_tasks)) = Some 6"
proof -
  have cards: "completed_cards page_tasks \<noteq> []" by (simp add: page_tasks_facts)
  show ?thesis
    using toggle_inserted_before_task_list
      [OF page_tasks_wf cards page_tasks_facts(1) page_tasks_facts(3)]
      page_tasks_wf cards page_tasks_facts(1,3)
    by (simp add: page_tasks_next)
qed

text \<open>
  C6 as stated fails where the task-list container is the root element: it has no parent
  element, the handler stops with a TypeError at the insertion, and the document is as it
  was, with one completed card and no button.
\<close>

theorem toggle_not_inserted_at_root_counterexample:
  "completed_cards page_root_list = [2] \<and>
   fst (domContentLoaded page_root_list) = Some TypeError \<and>
   doc (snd (domContentLoaded page_root_list)) = doc page_root_list"
proof -
  have "completed_cards page_root_list \<noteq> []" by (simp add: page_root_list_facts)
  from load_cards_root [OF page_root_list_facts(1) this page_root_list_facts(3)]
  show ?thesis by (simp add: page_root_list_facts)
qed

text \<open>
  C7. Given no flash element at load, the flash part of the handler leaves the page as it
  is, the handler as a whole schedules no timer, and on a page with no timer pending the
  passing of time changes nothing but the clock.
\<close>

theorem no_flash_no_timers:
  assumes "flash_elements s = []"
  shows "flash_setup s = s \<and> timers (snd (domContentLoaded s)) = timers s \<and>
    (timers s = [] \<longrightarrow>
       (\<forall>n. advance n (snd (domContentLoaded s)) = (snd (domContentLoaded s))\<lparr>now := now s + n\<rparr>))"
proof -
  have same: "flash_setup s = s" using assms by (rule flash_setup_none)
  then have t: "timers (snd (domContentLoaded s)) = timers s" by (simp add: load_timers)
  have "advance n (snd (domContentLoaded s)) = (snd (domContentLoaded s))\<lparr>now := now s + n\<rparr>"
    if "timers s = []" for n
    using advance_quiet [of "snd (domContentLoaded s)" n] t that by (simp add: load_now)
  with same t show ?thesis by blast
qed

theorem no_flash_no_timers_witness:
  "flash_elements page_open_tasks = [] \<and> timers page_open_tasks = [] \<and>
   flash_setup page_open_tasks = page_open_tasks \<and>
   timers (snd (domContentLoaded page_open_tasks)) = [] \<and>
   advance 5000 (snd (domContentLoaded page_open_tasks)) =
     (snd (domContentLoaded page_open_tasks))\<lparr>now := 5000\<rparr>"
proof -
  have t: "timers page_open_tasks = []" "now page_open_tasks = 0"
    by (simp_all add: page_open_tasks_def)
  from no_flash_no_timers [OF page_open_tasks_facts(3)] t show ?thesis
    by (simp add: page_open_tasks_facts)
qed

text \<open>
  C8. Given at least one flash element at load, whatever clicks and waits follow, the
  dismiss sequence goes its way: while less than 4000 ms have passed the fade is the one
  pending timer; from 4000 ms until 4400 ms the flash elements are faded and the removal is
  the one pending timer; once 4400 ms have passed the flash elements are faded, none of
  them is in the document, and no timer is left. No event takes a pending timer away.
\<close>

theorem dismiss_runs_to_completion:
  assumes "at_load s0" "flash_elements s0 \<noteq> []" "s = run es (snd (domContentLoaded s0))"
  shows "(elapsed es < 4000 \<longrightarrow>
       timers s = [(now s0 + 4000, FadeFlashes (flash_elements s0))]) \<and>
    (4000 \<le> elapsed es \<and> elapsed es < 4400 \<longrightarrow>
       timers s = [(now s0 + 4400, RemoveFlashes (flash_elements s0))] \<and>
       list_all (faded s) (flash_elements s0)) \<and>
    (4400 \<le> elapsed es \<longrightarrow>
       timers s = [] \<and> list_all (faded s) (flash_elements s0) \<and>
       list_all (\<lambda>f. \<not> attached s f) (flash_elements s0))"
proof -
  have t0: "timers s0 = []" using assms(1) by (simp add: at_load_def)
  have "dismiss_state (now s0) (flash_elements s0) (doc (snd (domContentLoaded s0))) s"
    unfolding assms(3) using t0 assms(2) by (intro dismiss_run dismiss_load)
  moreover have "now s = now s0 + elapsed es"
    by (simp add: assms(3) run_now load_now)
  ultimately show ?thesis by (simp add: dismiss_state_def)
qed

theorem dismiss_runs_to_completion_witness:
  "at_load page_tasks \<and> flash_elements page_tasks = [2] \<and>
   timers (run [Elapse 1000, Click, Elapse 2999] (snd (domContentLoaded page_tasks))) =
     [(4000, FadeFlashes [2])] \<and>
   timers (run [Elapse 1000, Click, Elapse 3000, Click] (snd (domContentLoaded page_tasks))) =
     [(4400, RemoveFlashes [2])] \<and>
   faded (run [Elapse 1000, Click, Elapse 3000, Click, Elapse 400]
     (snd (domContentLoaded page_tasks))) 2 \<and>
   \<not> attached (run [Elapse 1000, Click, Elapse 3000, Click, Elapse 400]
     (snd (domContentLoaded page_tasks))) 2"
  using
    dismiss_runs_to_completion [OF page_tasks_at_load page_tasks_flashes refl,
      of "[Elapse 1000, Click, Elapse 2999]"]
    dismiss_runs_to_completion [OF page_tasks_at_load page_tasks_flashes refl,
      of "[Elapse 1000, Click, Elapse 3000, Click]"]
    dismiss_runs_to_completion [OF page_tasks_at_load page_tasks_flashes refl,
      of "[Elapse 1000, Click, Elapse 3000, Click, Elapse 400]"]
    page_tasks_at_load
  by (simp add: page_tasks_facts page_tasks_elems)

text \<open>
  C9. Every click on a page whose listener is registered (for a non-empty list of
  existing cards and an existing button) yields a page that satisfies the invariant of the
  toggle and on which the listener is registered as before: the invariant is preserved by
  every click, and established by the first.
\<close>

theorem toggle_invariant_click:
  assumes "toggle_ready s"
  shows "toggle_inv (click s) \<and> toggle_ready (click s)"
proof -
  from assms obtain c where c: "click_listener s = Some c"
    and ne: "completed c \<noteq> []" and cards: "set (completed c) \<subseteq> dom (elems s)"
    and btn: "toggle c \<in> dom (elems s)"
    by (auto simp: toggle_ready_def split: option.splits)
  have disp: "display_of (click s) card = Some (if hidden c then None else Some ''none'')"
    if "card \<in> set (completed c)" for card
  proof -
    from that cards have "card \<in> dom (elems s)" by blast
    with c that show ?thesis by (rule display_of_click)
  qed
  from ne obtain x where x: "x \<in> set (completed c)" by (cases "completed c") auto
  have all_none: "list_all (\<lambda>card. display_of (click s) card = Some (Some ''none'')) (completed c)
      = (\<not> hidden c)"
    using disp x by (auto simp: list_all_iff)
  have all_clear: "list_all (\<lambda>card. display_of (click s) card = Some None) (completed c)
      = hidden c"
    using disp x by (auto simp: list_all_iff)
  have lab: "label (click s) =
      Some (if hidden c then ''Hide completed tasks'' else ''Show completed tasks'')"
    using c btn by (rule label_click)
  have "toggle_inv (click s)"
    using c ne all_none all_clear lab by (simp add: toggle_inv_def click_listener_click)
  with assms show ?thesis by (simp add: toggle_ready_click)
qed

theorem toggle_invariant_click_witness:
  "toggle_ready (snd (domContentLoaded page_tasks)) \<and>
   toggle_inv (click (snd (domContentLoaded page_tasks))) \<and>
   toggle_ready (click (snd (domContentLoaded page_tasks)))"
  using toggle_invariant_click [OF load_toggle_ready [OF page_tasks_cards]]
    load_toggle_ready [OF page_tasks_cards]
  by simp

text \<open>
  C10. The insertion is the one step of the handler that can raise. When the task-list
  container has a parent element the handler raises nothing. Whenever the handler raises,
  the error is the TypeError of calling \<^verbatim>\<open>insertBefore\<close> on \<^verbatim>\<open>null\<close>: a completed card exists
  and the container has no parent element. The NotFoundError of \<^verbatim>\<open>insertBefore\<close> is never
  raised.
\<close>

theorem insertion_error_needs_missing_parent:
  "(task_list s = Some l \<and> parentElement l s = Some p \<longrightarrow> fst (domContentLoaded s) = None) \<and>
   (fst (domContentLoaded s) = None \<or>
    fst (domContentLoaded s) = Some TypeError \<and> completed_cards s \<noteq> [] \<and>
    (\<exists>t. task_list s = Some t \<and> parentElement t s = None))"
proof (cases "completed_cards s = []")
  case True
  then show ?thesis by (simp add: load_no_cards)
next
  case False
  then obtain t where t: "task_list s = Some t" using completed_cards_task_list by blast
  show ?thesis
  proof (cases "parentElement t s")
    case None
    with t False show ?thesis by (auto simp: load_cards_root)
  next
    case (Some q)
    with t False show ?thesis by (simp add: load_cards_parent)
  qed
qed

theorem insertion_error_needs_missing_parent_witness:
  "task_list page_tasks = Some 3 \<and> parentElement 3 page_tasks = Some 1 \<and>
   fst (domContentLoaded page_tasks) = None"
  using insertion_error_needs_missing_parent [of page_tasks 3 1] page_tasks_facts(1,3)
  by simp

end
